theory Spec2Isabelle
  imports Main
begin

section \<open>Python values used by the table and formula extractor\<close>

text \<open>
  The development follows \<^verbatim>\<open>table_extraction.py\<close>. Python integers are \<open>int\<close>,
  Python strings are \<open>string\<close> (one \<open>char\<close> per code point, code points below 256),
  and every exception the modelled code can raise is a value of \<open>py_error\<close>.
\<close>

datatype py_error = IndexError | ValueError | ReError

subsection \<open>Characters and strings\<close>

text \<open>
  \<^verbatim>\<open>str.isalpha\<close>, \<^verbatim>\<open>str.strip\<close> and the regular-expression classes, on the code
  points below 256: the alphabetic ones are the ASCII letters and the Latin-1 letters, the
  white space stripped by \<^verbatim>\<open>strip()\<close> is 9-13, 28-32, 133 and 160, and \<^verbatim>\<open>\d\<close> matches
  the ten ASCII digits only.
\<close>

definition is_letter :: "char \<Rightarrow> bool" where
  \<comment> \<open>the class \<^verbatim>\<open>[A-Za-z]\<close>\<close>
  "is_letter c = (c \<in> set ''ABCDEFGHIJKLMNOPQRSTUVWXYZabcdefghijklmnopqrstuvwxyz'')"

definition is_digit :: "char \<Rightarrow> bool" where
  \<comment> \<open>the class \<^verbatim>\<open>\d\<close>\<close>
  "is_digit c = (c \<in> set ''0123456789'')"


definition isalpha :: "char \<Rightarrow> bool" where
  "isalpha c =
     (let n = (of_char c :: nat)
      in is_letter c \<or> n = 170 \<or> n = 181 \<or> n = 186 \<or> (192 \<le> n \<and> n \<le> 214)
         \<or> (216 \<le> n \<and> n \<le> 246) \<or> (248 \<le> n \<and> n \<le> 255))"

definition isspace :: "char \<Rightarrow> bool" where
  "isspace c =
     (let n = (of_char c :: nat)
      in (9 \<le> n \<and> n \<le> 13) \<or> (28 \<le> n \<and> n \<le> 32) \<or> n = 133 \<or> n = 160)"

definition strip :: "string \<Rightarrow> string" where
  "strip s = rev (dropWhile isspace (rev (dropWhile isspace s)))"

definition startswith :: "string \<Rightarrow> string \<Rightarrow> bool" where
  "startswith s p = (take (length p) s = p)"

text \<open>\<^verbatim>\<open>any(ch.isalpha() for ch in s)\<close>, the test of lines 319, 364 and 380.\<close>

definition looks_text :: "string \<Rightarrow> bool" where
  "looks_text s = list_ex isalpha s"

text \<open>\<^verbatim>\<open>str(n)\<close> of an integer: its decimal digits, with a sign when negative.\<close>

fun str_nat :: "nat \<Rightarrow> string" where
  "str_nat n =
     (if n < 10 then [''0123456789'' ! n]
      else str_nat (n div 10) @ [''0123456789'' ! (n mod 10)])"

declare str_nat.simps [simp del]

definition str_int :: "int \<Rightarrow> string" where
  "str_int i = (if i < 0 then CHR ''-'' # str_nat (nat (- i)) else str_nat (nat i))"

subsection \<open>Worksheets\<close>

text \<open>
  A cell holds \<^verbatim>\<open>None\<close> or a value; the code reads a value only through
  \<^verbatim>\<open>is None\<close> and \<^verbatim>\<open>str(v)\<close>. Text, integers and truth values are modelled (floats and
  dates are not).
\<close>

datatype cell_value = Text string | Number int | Boolean bool

fun py_str :: "cell_value \<Rightarrow> string" where
  "py_str (Text s) = s"
| "py_str (Number i) = str_int i"
| "py_str (Boolean b) = (if b then ''True'' else ''False'')"

record dimension =
  hidden :: bool

text \<open>
  A declared table: \<open>ref_bounds\<close> is what \<^verbatim>\<open>range_boundaries(t.ref)\<close> returns,
  \<^verbatim>\<open>(min_col, min_row, max_col, max_row)\<close>; \<open>tableColumns\<close> holds the \<^verbatim>\<open>name\<close> of each
  declared column.
\<close>

record table_obj =
  ref_bounds :: "int \<times> int \<times> int \<times> int"
  displayName :: string
  tableColumns :: "string list"

text \<open>
  The worksheet as the code reads it. \<open>cell_rows\<close> is \<^verbatim>\<open>list(ws.iter_rows(values_only=True))\<close>;
  \<open>column_dimensions\<close> and \<open>row_dimensions\<close> are keyed by the 1-based index (the
  library keys columns by their letter, and \<^verbatim>\<open>get_column_letter\<close> is one-to-one on the
  1 to 18278 it accepts, beyond the 16384 columns a sheet can have); \<open>merged_cells\<close> holds
  the \<^verbatim>\<open>bounds\<close> of each merged range, \<^verbatim>\<open>(min_col, min_row, max_col, max_row)\<close>.
\<close>

record worksheet =
  title :: string
  cell_rows :: "cell_value option list list"
  max_column :: nat
  column_dimensions :: "nat \<rightharpoonup> dimension"
  row_dimensions :: "nat \<rightharpoonup> dimension"
  merged_cells :: "(int \<times> int \<times> int \<times> int) list"
  tables :: "table_obj list"

text \<open>
  \<^verbatim>\<open>ws.cell(row=r, column=c).value\<close>: the library raises \<^verbatim>\<open>ValueError\<close> for a row or
  column below 1, and a cell beyond the stored rows is empty.
\<close>

definition ws_cell_value :: "worksheet \<Rightarrow> int \<Rightarrow> int \<Rightarrow> py_error + cell_value option" where
  "ws_cell_value ws row col =
     (if row < 1 \<or> col < 1 then Inl ValueError
      else let i = nat (row - 1); j = nat (col - 1)
           in if i < length (cell_rows ws) \<and> j < length (cell_rows ws ! i)
              then Inr (cell_rows ws ! i ! j) else Inr None)"

text \<open>Lines 280-296: the first merged range that holds the cell gives its top-left value.\<close>

fun merged_lookup ::
  "worksheet \<Rightarrow> (int \<times> int \<times> int \<times> int) list \<Rightarrow> int \<Rightarrow> int \<Rightarrow> py_error + cell_value option" where
  "merged_lookup ws [] row col = ws_cell_value ws row col"
| "merged_lookup ws ((min_col, min_row, max_col, max_row) # ranges) row col =
     (if min_row \<le> row \<and> row \<le> max_row \<and> min_col \<le> col \<and> col \<le> max_col
      then ws_cell_value ws min_row min_col
      else merged_lookup ws ranges row col)"

definition get_merged_cell_value :: "worksheet \<Rightarrow> int \<Rightarrow> int \<Rightarrow> py_error + cell_value option" where
  "get_merged_cell_value ws row col = merged_lookup ws (merged_cells ws) row col"

text \<open>
  Lines 58-73. A region is \<^verbatim>\<open>(min_row, min_col, max_row, max_col, name, table)\<close>.
\<close>

type_synonym region = "int \<times> int \<times> int \<times> int \<times> string \<times> table_obj"

definition get_explicit_table_regions :: "worksheet \<Rightarrow> region list" where
  "get_explicit_table_regions ws =
     map (\<lambda>t. case ref_bounds t of
                 (min_col, min_row, max_col, max_row) \<Rightarrow>
                   (min_row, min_col, max_row, max_col, displayName t, t))
         (tables ws)"

section \<open>GridBuilder\<close>

text \<open>
  A two-dimensional boolean array with its shape. \<open>at g i j\<close> is \<^verbatim>\<open>g[i, j]\<close> for an
  index inside the shape, the only place the code reads.
\<close>

record grid =
  nrows :: nat
  ncols :: nat
  cells :: "bool list list"

definition at :: "grid \<Rightarrow> nat \<Rightarrow> nat \<Rightarrow> bool" where
  "at g i j = cells g ! i ! j"

definition zeros :: "nat \<Rightarrow> nat \<Rightarrow> grid" where
  "zeros R C = \<lparr>nrows = R, ncols = C, cells = replicate R (replicate C False)\<rparr>"

text \<open>
  The bound \<open>k\<close> of a slice over an axis of length \<open>n\<close>: a negative bound counts from the
  end, and every bound is clipped to the axis.
\<close>

definition slice_bound :: "int \<Rightarrow> nat \<Rightarrow> nat" where
  "slice_bound k n = (if k < 0 then nat (max 0 (k + int n)) else min (nat k) n)"

text \<open>\<^verbatim>\<open>m[a:b, c:d] = True\<close>, line 93.\<close>

definition slice_fill :: "grid \<Rightarrow> int \<Rightarrow> int \<Rightarrow> int \<Rightarrow> int \<Rightarrow> grid" where
  "slice_fill m a b c d =
     m\<lparr>cells :=
         map (\<lambda>i. map (\<lambda>j. (slice_bound a (nrows m) \<le> i \<and> i < slice_bound b (nrows m)
                            \<and> slice_bound c (ncols m) \<le> j \<and> j < slice_bound d (ncols m))
                           \<or> at m i j)
                     [0 ..< ncols m])
             [0 ..< nrows m]\<rparr>"

fun explicit_mask :: "grid \<Rightarrow> region list \<Rightarrow> grid" where
  "explicit_mask m [] = m"
| "explicit_mask m ((r1, c1, r2, c2, name, t) # regions) =
     explicit_mask (slice_fill m (r1 - 1) r2 (c1 - 1) c2) regions"

definition column_hidden :: "worksheet \<Rightarrow> nat \<Rightarrow> bool" where
  \<comment> \<open>lines 96-98, for the 0-based column \<open>j\<close>\<close>
  "column_hidden ws j =
     (case column_dimensions ws (j + 1) of None \<Rightarrow> False | Some col_dim \<Rightarrow> hidden col_dim)"

definition row_value :: "cell_value option list \<Rightarrow> nat \<Rightarrow> cell_value option" where
  \<comment> \<open>\<^verbatim>\<open>row[j] if j < len(row) else None\<close>\<close>
  "row_value row j = (if j < length row then row ! j else None)"

text \<open>
  Lines 76-103. The grid starts all false and the loops write \<^verbatim>\<open>grid[i, j]\<close> only in
  the iteration for \<open>(i, j)\<close>, so each entry is the condition of that iteration.
\<close>

definition build_grid_excluding_explicit :: "worksheet \<Rightarrow> region list \<Rightarrow> grid" where
  "build_grid_excluding_explicit ws explicit_regions =
     (let rows = cell_rows ws;
          R = length rows;
          C = max_column ws;
          mask = explicit_mask (zeros R C) explicit_regions
      in \<lparr>nrows = R, ncols = C,
          cells = map (\<lambda>i. map (\<lambda>j. if column_hidden ws j then False
                                    else row_value (rows ! i) j \<noteq> None \<and> \<not> at mask i j)
                               [0 ..< C])
                      [0 ..< R]\<rparr>)"

text \<open>
  The specification's wording of one grid entry, for the 1-based cell \<open>(row, col)\<close>: the
  value resolved through the merged ranges is not null, neither the row nor the column is
  hidden, and no explicit-table range holds the cell.
\<close>

definition row_hidden :: "worksheet \<Rightarrow> nat \<Rightarrow> bool" where
  "row_hidden ws i =
     (case row_dimensions ws (i + 1) of None \<Rightarrow> False | Some row_dim \<Rightarrow> hidden row_dim)"

definition in_region :: "region \<Rightarrow> int \<Rightarrow> int \<Rightarrow> bool" where
  "in_region reg row col =
     (case reg of (r1, c1, r2, c2, name, t) \<Rightarrow> r1 \<le> row \<and> row \<le> r2 \<and> c1 \<le> col \<and> col \<le> c2)"

definition grid_entry_spec :: "worksheet \<Rightarrow> region list \<Rightarrow> int \<Rightarrow> int \<Rightarrow> bool" where
  "grid_entry_spec ws explicit_regions row col =
     ((case get_merged_cell_value ws row col of Inr (Some v) \<Rightarrow> True | _ \<Rightarrow> False)
      \<and> \<not> row_hidden ws (nat (row - 1))
      \<and> \<not> column_hidden ws (nat (col - 1))
      \<and> \<not> list_ex (\<lambda>reg. in_region reg row col) explicit_regions)"

subsection \<open>Entries of the mask and of the grid\<close>

text \<open>
  A range of the data model is 1-based with \<open>r1 \<le> r2\<close> and \<open>c1 \<le> c2\<close>; for such a
  range the slice \<^verbatim>\<open>[r1 - 1:r2, c1 - 1:c2]\<close> holds exactly the cells of the range that
  lie in the array.
\<close>

definition region_ok :: "region \<Rightarrow> bool" where
  "region_ok reg =
     (case reg of (r1, c1, r2, c2, name, t) \<Rightarrow> 1 \<le> r1 \<and> r1 \<le> r2 \<and> 1 \<le> c1 \<and> c1 \<le> c2)"

definition in_slice :: "region \<Rightarrow> nat \<Rightarrow> nat \<Rightarrow> nat \<Rightarrow> nat \<Rightarrow> bool" where
  "in_slice reg R C i j =
     (case reg of (r1, c1, r2, c2, name, t) \<Rightarrow>
        slice_bound (r1 - 1) R \<le> i \<and> i < slice_bound r2 R
        \<and> slice_bound (c1 - 1) C \<le> j \<and> j < slice_bound c2 C)"

lemma shape_slice_fill [simp]:
  "nrows (slice_fill m a b c d) = nrows m" "ncols (slice_fill m a b c d) = ncols m"
  by (simp_all add: slice_fill_def)

lemma shape_explicit_mask [simp]:
  "nrows (explicit_mask m regions) = nrows m" "ncols (explicit_mask m regions) = ncols m"
  by (induction m regions rule: explicit_mask.induct) simp_all

lemma at_slice_fill:
  "i < nrows m \<Longrightarrow> j < ncols m \<Longrightarrow>
   at (slice_fill m a b c d) i j =
     ((slice_bound a (nrows m) \<le> i \<and> i < slice_bound b (nrows m)
       \<and> slice_bound c (ncols m) \<le> j \<and> j < slice_bound d (ncols m)) \<or> at m i j)"
  by (simp add: slice_fill_def at_def)

lemma at_explicit_mask:
  "i < nrows m \<Longrightarrow> j < ncols m \<Longrightarrow>
   at (explicit_mask m regions) i j =
     (at m i j \<or> list_ex (\<lambda>reg. in_slice reg (nrows m) (ncols m) i j) regions)"
proof (induction m regions rule: explicit_mask.induct)
  case (1 m)
  show ?case by simp
next
  case (2 m r1 c1 r2 c2 name t regions)
  then show ?case
    by (auto simp: at_slice_fill in_slice_def)
qed

lemma in_slice_region:
  assumes "region_ok reg" "i < R" "j < C"
  shows "in_slice reg R C i j = in_region reg (int i + 1) (int j + 1)"
proof -
  obtain r1 c1 r2 c2 name t where reg: "reg = (r1, c1, r2, c2, name, t)"
    by (cases reg) auto
  have b: "1 \<le> r1" "r1 \<le> r2" "1 \<le> c1" "c1 \<le> c2"
    using assms(1) by (simp_all add: region_ok_def reg)
  have lo: "\<And>k n. (1::int) \<le> k \<Longrightarrow> slice_bound (k - 1) n = min (nat (k - 1)) n"
    by (simp add: slice_bound_def)
  have hi: "\<And>k n. (1::int) \<le> k \<Longrightarrow> slice_bound k n = min (nat k) n"
    by (simp add: slice_bound_def)
  have r: "(min (nat (r1 - 1)) R \<le> i \<and> i < min (nat r2) R) = (r1 \<le> int i + 1 \<and> int i + 1 \<le> r2)"
    using b assms(2) by linarith
  have c: "(min (nat (c1 - 1)) C \<le> j \<and> j < min (nat c2) C) = (c1 \<le> int j + 1 \<and> int j + 1 \<le> c2)"
    using b assms(3) by linarith
  have "in_slice reg R C i j =
          ((min (nat (r1 - 1)) R \<le> i \<and> i < min (nat r2) R)
           \<and> (min (nat (c1 - 1)) C \<le> j \<and> j < min (nat c2) C))"
    using b by (simp only: in_slice_def reg prod.case lo hi conj_assoc)
  also have "\<dots> = in_region reg (int i + 1) (int j + 1)"
    by (simp only: r c in_region_def reg prod.case conj_assoc)
  finally show ?thesis .
qed

lemma shape_build_grid [simp]:
  "nrows (build_grid_excluding_explicit ws regions) = length (cell_rows ws)"
  "ncols (build_grid_excluding_explicit ws regions) = max_column ws"
  by (simp_all add: build_grid_excluding_explicit_def Let_def)

lemma at_build_grid:
  assumes "i < length (cell_rows ws)" "j < max_column ws"
  shows "at (build_grid_excluding_explicit ws regions) i j =
     (\<not> column_hidden ws j \<and> row_value (cell_rows ws ! i) j \<noteq> None
      \<and> \<not> list_ex (\<lambda>reg. in_slice reg (length (cell_rows ws)) (max_column ws) i j) regions)"
  using assms
  by (simp add: build_grid_excluding_explicit_def at_def Let_def)
     (simp add: at_explicit_mask [unfolded at_def] zeros_def)

section \<open>IslandSegmenter\<close>

text \<open>
  Lines 122-138, the loop of \<^verbatim>\<open>flood\<close>. The stack is a list whose head is the top (the
  last element of the Python list, the one \<^verbatim>\<open>pop()\<close> takes), so the four neighbours
  that \<^verbatim>\<open>extend\<close> appends come in front in reverse order. \<^verbatim>\<open>visited\<close> is the set of the
  indices that hold \<^verbatim>\<open>True\<close>; the loop returns it with the bounding box, since the
  array is shared by all the calls.
\<close>

type_synonym visited = "(nat \<times> nat) set"

definition unvisited :: "grid \<Rightarrow> visited \<Rightarrow> (nat \<times> nat) set" where
  "unvisited g vis = {(a, b). a < nrows g \<and> b < ncols g \<and> at g a b \<and> (a, b) \<notin> vis}"

lemma finite_unvisited: "finite (unvisited g vis)"
proof (rule finite_subset)
  show "unvisited g vis \<subseteq> {..< nrows g} \<times> {..< ncols g}"
    by (auto simp: unvisited_def)
  show "finite ({..< nrows g} \<times> {..< ncols g})"
    by simp
qed

lemma card_unvisited_insert:
  assumes "a < nrows g" "b < ncols g" "at g a b" "(a, b) \<notin> vis"
  shows "card (unvisited g (insert (a, b) vis)) < card (unvisited g vis)"
proof (rule psubset_card_mono [OF finite_unvisited])
  have "(a, b) \<in> unvisited g vis" "(a, b) \<notin> unvisited g (insert (a, b) vis)"
    using assms by (auto simp: unvisited_def)
  moreover have "unvisited g (insert (a, b) vis) \<subseteq> unvisited g vis"
    by (auto simp: unvisited_def)
  ultimately show "unvisited g (insert (a, b) vis) \<subset> unvisited g vis"
    by blast
qed

function flood_loop ::
  "grid \<Rightarrow> (int \<times> int) list \<Rightarrow> visited \<Rightarrow> int \<times> int \<times> int \<times> int
   \<Rightarrow> (int \<times> int \<times> int \<times> int) \<times> visited" where
  "flood_loop g [] vis (min_r, max_r, min_c, max_c) = ((min_r, max_r, min_c, max_c), vis)"
| "flood_loop g ((i, j) # stack) vis (min_r, max_r, min_c, max_c) =
     (if i < 0 \<or> i \<ge> int (nrows g) \<or> j < 0 \<or> j \<ge> int (ncols g)
      then flood_loop g stack vis (min_r, max_r, min_c, max_c)
      else if (nat i, nat j) \<in> vis \<or> \<not> at g (nat i) (nat j)
      then flood_loop g stack vis (min_r, max_r, min_c, max_c)
      else flood_loop g ((i, j - 1) # (i, j + 1) # (i - 1, j) # (i + 1, j) # stack)
             (insert (nat i, nat j) vis)
             (min min_r i, max max_r i, min min_c j, max max_c j))"
  by pat_completeness auto
termination
proof (relation "measure (\<lambda>(g, stack, vis, box). 4 * card (unvisited g vis) + length stack)")
  show "wf (measure (\<lambda>(g, stack, vis, box). 4 * card (unvisited g vis) + length stack))"
    by simp
next
  fix g :: grid and i j :: int and stack :: "(int \<times> int) list" and vis :: visited
    and min_r max_r min_c max_c :: int
  assume "\<not> (i < 0 \<or> int (nrows g) \<le> i \<or> j < 0 \<or> int (ncols g) \<le> j)"
    and "\<not> ((nat i, nat j) \<in> vis \<or> \<not> at g (nat i) (nat j))"
  then have "card (unvisited g (insert (nat i, nat j) vis)) < card (unvisited g vis)"
    by (intro card_unvisited_insert) auto
  then show "((g, (i, j - 1) # (i, j + 1) # (i - 1, j) # (i + 1, j) # stack,
               insert (nat i, nat j) vis, min min_r i, max max_r i, min min_c j, max max_c j),
              (g, (i, j) # stack, vis, min_r, max_r, min_c, max_c))
             \<in> measure (\<lambda>(g, stack, vis, box). 4 * card (unvisited g vis) + length stack)"
    by simp
qed simp_all

definition flood :: "grid \<Rightarrow> visited \<Rightarrow> int \<Rightarrow> int \<Rightarrow> (int \<times> int \<times> int \<times> int) \<times> visited" where
  "flood g vis r c = flood_loop g [(r, c)] vis (r, r, c, c)"

text \<open>
  Lines 140-147: the body of the two loops for the cell \<open>(i, j)\<close>, on the state
  \<^verbatim>\<open>(visited, islands)\<close>. A bounding box is \<^verbatim>\<open>(r1, r2, c1, c2)\<close>, 1-based.
\<close>

type_synonym bbox = "int \<times> int \<times> int \<times> int"

definition visit_cell ::
  "grid \<Rightarrow> int \<Rightarrow> int \<Rightarrow> visited \<times> bbox list \<Rightarrow> nat \<times> nat \<Rightarrow> visited \<times> bbox list" where
  "visit_cell g min_rows min_cols state cell =
     (case (state, cell) of ((vis, islands), (i, j)) \<Rightarrow>
        if at g i j \<and> (i, j) \<notin> vis
        then (case flood g vis (int i) (int j) of
                ((min_r, max_r, min_c, max_c), vis') \<Rightarrow>
                  let height = max_r - min_r + 1;
                      width = max_c - min_c + 1
                  in if height \<ge> min_rows \<and> width \<ge> min_cols
                     then (vis', islands @ [(min_r + 1, max_r + 1, min_c + 1, max_c + 1)])
                     else (vis', islands))
        else (vis, islands))"

text \<open>Lines 106-148; the cells are visited row by row, each row from left to right.\<close>

definition flood_fill_islands :: "grid \<Rightarrow> int \<Rightarrow> int \<Rightarrow> bbox list" where
  "flood_fill_islands g min_rows min_cols =
     snd (foldl (visit_cell g min_rows min_cols) ({}, [])
                (List.product [0 ..< nrows g] [0 ..< ncols g]))"

section \<open>RegionSplitter\<close>

text \<open>
  Lines 162-170 and 227-235. The sub-grid \<^verbatim>\<open>grid[r0:r1i + 1, c0:c1i + 1]\<close> of the box
  \<^verbatim>\<open>(r1, r2, c1, c2)\<close> holds the rows \<open>row_lo \<dots> row_hi - 1\<close> and the columns
  \<open>col_lo \<dots> col_hi - 1\<close> of the grid, with the bounds of the slices \<^verbatim>\<open>r1 - 1:r2\<close> and
  \<^verbatim>\<open>c1 - 1:c2\<close>.
\<close>

definition row_lo :: "grid \<Rightarrow> bbox \<Rightarrow> nat" where
  "row_lo g box = (case box of (r1, r2, c1, c2) \<Rightarrow> slice_bound (r1 - 1) (nrows g))"

definition row_hi :: "grid \<Rightarrow> bbox \<Rightarrow> nat" where
  "row_hi g box = (case box of (r1, r2, c1, c2) \<Rightarrow> slice_bound r2 (nrows g))"

definition col_lo :: "grid \<Rightarrow> bbox \<Rightarrow> nat" where
  "col_lo g box = (case box of (r1, r2, c1, c2) \<Rightarrow> slice_bound (c1 - 1) (ncols g))"

definition col_hi :: "grid \<Rightarrow> bbox \<Rightarrow> nat" where
  "col_hi g box = (case box of (r1, r2, c1, c2) \<Rightarrow> slice_bound c2 (ncols g))"

definition subgrid_rows :: "grid \<Rightarrow> bbox \<Rightarrow> nat" where
  \<comment> \<open>\<^verbatim>\<open>subgrid.shape[0]\<close>\<close>
  "subgrid_rows g box = row_hi g box - row_lo g box"

definition subgrid_cols :: "grid \<Rightarrow> bbox \<Rightarrow> nat" where
  \<comment> \<open>\<^verbatim>\<open>subgrid.shape[1]\<close>\<close>
  "subgrid_cols g box = col_hi g box - col_lo g box"

definition row_sums :: "grid \<Rightarrow> bbox \<Rightarrow> nat list" where
  \<comment> \<open>\<^verbatim>\<open>subgrid.sum(axis=1)\<close>\<close>
  "row_sums g box =
     map (\<lambda>i. length (filter (\<lambda>j. at g (row_lo g box + i) j) [col_lo g box ..< col_hi g box]))
         [0 ..< subgrid_rows g box]"

definition col_sums :: "grid \<Rightarrow> bbox \<Rightarrow> nat list" where
  \<comment> \<open>\<^verbatim>\<open>subgrid.sum(axis=0)\<close>\<close>
  "col_sums g box =
     map (\<lambda>j. length (filter (\<lambda>i. at g i (col_lo g box + j)) [row_lo g box ..< row_hi g box]))
         [0 ..< subgrid_cols g box]"

definition empty_indices :: "nat list \<Rightarrow> nat list" where
  \<comment> \<open>\<^verbatim>\<open>[i for i, s in enumerate(sums) if s == 0]\<close>\<close>
  "empty_indices sums = filter (\<lambda>i. sums ! i = 0) [0 ..< length sums]"

text \<open>
  The run loop, written four times in the source (lines 173-184, 194-205, 238-249,
  258-269): \<open>runs_loop sums j start\<close> runs the loop from index \<open>j\<close> over the sums that
  are left, and closes the open run after the last index.
\<close>

fun runs_loop :: "nat list \<Rightarrow> nat \<Rightarrow> nat option \<Rightarrow> (nat \<times> nat) list" where
  "runs_loop [] j start = (case start of Some s \<Rightarrow> [(s, j - 1)] | None \<Rightarrow> [])"
| "runs_loop (x # sums) j start =
     (if x > 0
      then runs_loop sums (j + 1) (if start = None then Some j else start)
      else (case start of
              Some s \<Rightarrow> (s, j - 1) # runs_loop sums (j + 1) None
            | None \<Rightarrow> runs_loop sums (j + 1) None))"

definition non_empty_runs :: "nat list \<Rightarrow> (nat \<times> nat) list" where
  "non_empty_runs sums = runs_loop sums 0 None"

text \<open>The boxes of the column runs and of the row runs (lines 186-189 and 207-210).\<close>

definition col_run_box :: "bbox \<Rightarrow> nat \<times> nat \<Rightarrow> bbox" where
  "col_run_box box run =
     (case (box, run) of ((r1, r2, c1, c2), (cs, ce)) \<Rightarrow>
        let c0 = c1 - 1 in (r1, r2, c0 + int cs + 1, c0 + int ce + 1))"

definition row_run_box :: "bbox \<Rightarrow> nat \<times> nat \<Rightarrow> bbox" where
  "row_run_box box run =
     (case (box, run) of ((r1, r2, c1, c2), (rs, re)) \<Rightarrow>
        let r0 = r1 - 1 in (r0 + int rs + 1, r0 + int re + 1, c1, c2))"

subsection \<open>Runs of the run loop\<close>

text \<open>
  Every run the loop returns is an interval of indices whose sums are positive; the
  statement is generalised over the index and the open run the loop has reached.
\<close>

lemma slice_width: "a < b \<Longrightarrow> slice_bound b n - slice_bound a n \<le> nat (b - a)"
  by (auto simp: slice_bound_def)

lemma runs_loop_props:
  assumes "(cs, ce) \<in> set (runs_loop sums j start)"
    and "\<And>s. start = Some s \<Longrightarrow> s < j"
  shows "cs \<le> ce \<and> ce < j + length sums
         \<and> (\<forall>k. j \<le> k \<and> cs \<le> k \<and> k \<le> ce \<longrightarrow> 0 < sums ! (k - j))
         \<and> (cs < j \<longrightarrow> start = Some cs)"
  using assms
proof (induction sums j start rule: runs_loop.induct)
  case (1 j start)
  then show ?case by (auto split: option.splits)
next
  case (2 x sums j start)
  show ?case
  proof (cases "x > 0")
    case True
    let ?st = "if start = None then Some j else start"
    have mem: "(cs, ce) \<in> set (runs_loop sums (j + 1) ?st)"
      using "2.prems"(1) True by simp
    have inv: "\<And>s. ?st = Some s \<Longrightarrow> s < j + 1"
      using "2.prems"(2) by (auto split: if_splits)
    from "2.IH"(1) [OF True mem inv]
    have ih: "cs \<le> ce" "ce < j + 1 + length sums"
      "\<forall>k. j + 1 \<le> k \<and> cs \<le> k \<and> k \<le> ce \<longrightarrow> 0 < sums ! (k - (j + 1))"
      "cs < j + 1 \<longrightarrow> ?st = Some cs"
      by auto
    have "\<forall>k. j \<le> k \<and> cs \<le> k \<and> k \<le> ce \<longrightarrow> 0 < (x # sums) ! (k - j)"
    proof (intro allI impI)
      fix k assume k: "j \<le> k \<and> cs \<le> k \<and> k \<le> ce"
      show "0 < (x # sums) ! (k - j)"
      proof (cases "k = j")
        case True
        with \<open>x > 0\<close> show ?thesis by simp
      next
        case False
        with k have "j + 1 \<le> k" by simp
        with ih(3) k have "0 < sums ! (k - (j + 1))" by blast
        moreover have "k - j = Suc (k - (j + 1))" using \<open>j + 1 \<le> k\<close> by simp
        ultimately show ?thesis by simp
      qed
    qed
    moreover have "cs < j \<longrightarrow> start = Some cs"
      using ih(4) by (auto split: if_splits)
    ultimately show ?thesis using ih(1,2) by simp
  next
    case False
    show ?thesis
    proof (cases start)
      case None
      have mem: "(cs, ce) \<in> set (runs_loop sums (j + 1) None)"
        using "2.prems"(1) False None by simp
      from "2.IH"(2) [OF False None mem]
      have ih: "cs \<le> ce" "ce < j + 1 + length sums"
        "\<forall>k. j + 1 \<le> k \<and> cs \<le> k \<and> k \<le> ce \<longrightarrow> 0 < sums ! (k - (j + 1))"
        "\<not> cs < j + 1"
        by auto
      have "\<forall>k. j \<le> k \<and> cs \<le> k \<and> k \<le> ce \<longrightarrow> 0 < (x # sums) ! (k - j)"
      proof (intro allI impI)
        fix k assume k: "j \<le> k \<and> cs \<le> k \<and> k \<le> ce"
        with ih(4) have "j + 1 \<le> k" by simp
        with ih(3) k have "0 < sums ! (k - (j + 1))" by blast
        moreover have "k - j = Suc (k - (j + 1))" using \<open>j + 1 \<le> k\<close> by simp
        ultimately show "0 < (x # sums) ! (k - j)" by simp
      qed
      then show ?thesis using ih None by simp
    next
      case (Some s)
      have sj: "s < j" using "2.prems"(2) Some by simp
      from "2.prems"(1) False Some
      consider "(cs, ce) = (s, j - 1)" | "(cs, ce) \<in> set (runs_loop sums (j + 1) None)"
        by auto
      then show ?thesis
      proof cases
        case 1
        then show ?thesis using sj Some by auto
      next
        case 2
        from "2.IH"(3) [OF False Some 2]
        have ih: "cs \<le> ce" "ce < j + 1 + length sums"
          "\<forall>k. j + 1 \<le> k \<and> cs \<le> k \<and> k \<le> ce \<longrightarrow> 0 < sums ! (k - (j + 1))"
          "\<not> cs < j + 1"
          by auto
        have "\<forall>k. j \<le> k \<and> cs \<le> k \<and> k \<le> ce \<longrightarrow> 0 < (x # sums) ! (k - j)"
        proof (intro allI impI)
          fix k assume k: "j \<le> k \<and> cs \<le> k \<and> k \<le> ce"
          with ih(4) have "j + 1 \<le> k" by simp
          with ih(3) k have "0 < sums ! (k - (j + 1))" by blast
          moreover have "k - j = Suc (k - (j + 1))" using \<open>j + 1 \<le> k\<close> by simp
          ultimately show "0 < (x # sums) ! (k - j)" by simp
        qed
        then show ?thesis using ih by simp
      qed
    qed
  qed
qed

lemma non_empty_runs_props:
  assumes "(cs, ce) \<in> set (non_empty_runs sums)"
  shows "cs \<le> ce" "ce < length sums" "\<And>k. cs \<le> k \<Longrightarrow> k \<le> ce \<Longrightarrow> 0 < sums ! k"
  using runs_loop_props [of cs ce sums 0 None] assms
  by (auto simp: non_empty_runs_def)

subsection \<open>The two splitting functions\<close>

text \<open>
  A run of non-empty columns of a box that has an empty column is narrower than the
  sub-grid of the box, and so is the sub-grid of the box made from the run; likewise for
  rows. This is what makes the mutual recursion end.
\<close>

lemma length_row_sums [simp]: "length (row_sums g box) = subgrid_rows g box"
  by (simp add: row_sums_def)

lemma length_col_sums [simp]: "length (col_sums g box) = subgrid_cols g box"
  by (simp add: col_sums_def)

lemma run_shorter:
  assumes "(cs, ce) \<in> set (non_empty_runs sums)" and "empty_indices sums \<noteq> []"
  shows "Suc ce - cs < length sums"
proof -
  from assms(2) obtain z where z: "z < length sums" "sums ! z = 0"
    by (auto simp: empty_indices_def filter_empty_conv)
  note p = non_empty_runs_props [OF assms(1)]
  have "z < cs \<or> ce < z"
    using p(3) [of z] z(2) by force
  with p(1,2) z(1) show ?thesis by linarith
qed

lemma subgrid_cols_col_run_box:
  assumes "cs \<le> ce"
  shows "subgrid_cols g (col_run_box (r1, r2, c1, c2) (cs, ce)) \<le> Suc ce - cs"
    and "subgrid_rows g (col_run_box (r1, r2, c1, c2) (cs, ce)) = subgrid_rows g (r1, r2, c1, c2)"
proof -
  have "slice_bound (c1 - 1 + int ce + 1) (ncols g) - slice_bound (c1 - 1 + int cs + 1 - 1) (ncols g)
        \<le> nat ((c1 - 1 + int ce + 1) - (c1 - 1 + int cs + 1 - 1))"
    using assms by (intro slice_width) simp
  also have "\<dots> = Suc ce - cs"
    using assms by simp
  finally show "subgrid_cols g (col_run_box (r1, r2, c1, c2) (cs, ce)) \<le> Suc ce - cs"
    by (simp add: subgrid_cols_def col_hi_def col_lo_def col_run_box_def)
  show "subgrid_rows g (col_run_box (r1, r2, c1, c2) (cs, ce)) = subgrid_rows g (r1, r2, c1, c2)"
    by (simp add: subgrid_rows_def row_hi_def row_lo_def col_run_box_def)
qed

lemma subgrid_rows_row_run_box:
  assumes "rs \<le> re"
  shows "subgrid_rows g (row_run_box (r1, r2, c1, c2) (rs, re)) \<le> Suc re - rs"
    and "subgrid_cols g (row_run_box (r1, r2, c1, c2) (rs, re)) = subgrid_cols g (r1, r2, c1, c2)"
proof -
  have "slice_bound (r1 - 1 + int re + 1) (nrows g) - slice_bound (r1 - 1 + int rs + 1 - 1) (nrows g)
        \<le> nat ((r1 - 1 + int re + 1) - (r1 - 1 + int rs + 1 - 1))"
    using assms by (intro slice_width) simp
  also have "\<dots> = Suc re - rs"
    using assms by simp
  finally show "subgrid_rows g (row_run_box (r1, r2, c1, c2) (rs, re)) \<le> Suc re - rs"
    by (simp add: subgrid_rows_def row_hi_def row_lo_def row_run_box_def)
  show "subgrid_cols g (row_run_box (r1, r2, c1, c2) (rs, re)) = subgrid_cols g (r1, r2, c1, c2)"
    by (simp add: subgrid_cols_def col_hi_def col_lo_def row_run_box_def)
qed

lemma col_run_box_smaller:
  assumes "run \<in> set (non_empty_runs (col_sums g box))"
    and "empty_indices (col_sums g box) \<noteq> []"
  shows "subgrid_rows g (col_run_box box run) + subgrid_cols g (col_run_box box run)
         < subgrid_rows g box + subgrid_cols g box"
proof -
  obtain r1 r2 c1 c2 where box: "box = (r1, r2, c1, c2)" by (cases box) auto
  obtain cs ce where run: "run = (cs, ce)" by (cases run) auto
  have le: "cs \<le> ce"
    using non_empty_runs_props(1) assms(1) run by blast
  have "Suc ce - cs < subgrid_cols g box"
    using run_shorter [of cs ce "col_sums g box"] assms run by simp
  with subgrid_cols_col_run_box [OF le, of g r1 r2 c1 c2] show ?thesis
    by (simp add: box run)
qed

lemma row_run_box_smaller:
  assumes "run \<in> set (non_empty_runs (row_sums g box))"
    and "empty_indices (row_sums g box) \<noteq> []"
  shows "subgrid_rows g (row_run_box box run) + subgrid_cols g (row_run_box box run)
         < subgrid_rows g box + subgrid_cols g box"
proof -
  obtain r1 r2 c1 c2 where box: "box = (r1, r2, c1, c2)" by (cases box) auto
  obtain rs re where run: "run = (rs, re)" by (cases run) auto
  have le: "rs \<le> re"
    using non_empty_runs_props(1) assms(1) run by blast
  have "Suc re - rs < subgrid_rows g box"
    using run_shorter [of rs re "row_sums g box"] assms run by simp
  with subgrid_rows_row_run_box [OF le, of g r1 r2 c1 c2] show ?thesis
    by (simp add: box run)
qed

text \<open>
  Lines 151-213 and 216-277. \<^verbatim>\<open>split_bbox_on_empty_lines\<close> looks for empty columns
  first and hands each column run to \<^verbatim>\<open>split_bbox_on_empty_rows\<close>; when it finds only
  empty rows it returns the row runs as they are. \<^verbatim>\<open>split_bbox_on_empty_rows\<close> is its
  mirror image.
\<close>

function split_bbox_on_empty_lines :: "grid \<Rightarrow> bbox \<Rightarrow> bbox list"
  and split_bbox_on_empty_rows :: "grid \<Rightarrow> bbox \<Rightarrow> bbox list" where
  "split_bbox_on_empty_lines g box =
     (if empty_indices (col_sums g box) \<noteq> []
      then concat (map (\<lambda>run. split_bbox_on_empty_rows g (col_run_box box run))
                       (non_empty_runs (col_sums g box)))
      else if empty_indices (row_sums g box) \<noteq> []
      then map (row_run_box box) (non_empty_runs (row_sums g box))
      else [box])"
| "split_bbox_on_empty_rows g box =
     (if empty_indices (row_sums g box) \<noteq> []
      then concat (map (\<lambda>run. split_bbox_on_empty_lines g (row_run_box box run))
                       (non_empty_runs (row_sums g box)))
      else if empty_indices (col_sums g box) \<noteq> []
      then map (col_run_box box) (non_empty_runs (col_sums g box))
      else [box])"
  by pat_completeness auto
termination
proof (relation "measure (\<lambda>x. case x of
                   Inl (g, box) \<Rightarrow> subgrid_rows g box + subgrid_cols g box
                 | Inr (g, box) \<Rightarrow> subgrid_rows g box + subgrid_cols g box)")
qed (auto intro: col_run_box_smaller row_run_box_smaller)

declare split_bbox_on_empty_lines.simps [simp del] split_bbox_on_empty_rows.simps [simp del]

subsection \<open>Properties of boxes\<close>

text \<open>
  A bounding box of the data model is 1-based with \<open>r1 \<le> r2\<close> and \<open>c1 \<le> c2\<close>. One box
  lies within another when its row range and its column range do; two boxes overlap when
  they share a cell. A box has no empty row when each row of its sub-grid holds a true
  cell, and no empty column likewise.
\<close>

definition box_ok :: "bbox \<Rightarrow> bool" where
  "box_ok box = (case box of (r1, r2, c1, c2) \<Rightarrow> 1 \<le> r1 \<and> r1 \<le> r2 \<and> 1 \<le> c1 \<and> c1 \<le> c2)"

definition box_within :: "bbox \<Rightarrow> bbox \<Rightarrow> bool" where
  "box_within inner outer =
     (case (inner, outer) of ((a1, a2, b1, b2), (r1, r2, c1, c2)) \<Rightarrow>
        r1 \<le> a1 \<and> a2 \<le> r2 \<and> c1 \<le> b1 \<and> b2 \<le> c2)"

definition boxes_overlap :: "bbox \<Rightarrow> bbox \<Rightarrow> bool" where
  "boxes_overlap p q =
     (case (p, q) of ((a1, a2, b1, b2), (r1, r2, c1, c2)) \<Rightarrow>
        max a1 r1 \<le> min a2 r2 \<and> max b1 c1 \<le> min b2 c2)"

definition no_empty_row :: "grid \<Rightarrow> bbox \<Rightarrow> bool" where
  "no_empty_row g box =
     list_all (\<lambda>i. list_ex (\<lambda>j. at g i j) [col_lo g box ..< col_hi g box])
              [row_lo g box ..< row_hi g box]"

definition no_empty_col :: "grid \<Rightarrow> bbox \<Rightarrow> bool" where
  "no_empty_col g box =
     list_all (\<lambda>j. list_ex (\<lambda>i. at g i j) [row_lo g box ..< row_hi g box])
              [col_lo g box ..< col_hi g box]"

subsection \<open>Empty rows and columns of a sub-grid\<close>

lemma empty_rows_iff: "empty_indices (row_sums g box) = [] \<longleftrightarrow> no_empty_row g box"
proof -
  have "empty_indices (row_sums g box) = []
        \<longleftrightarrow> (\<forall>i < subgrid_rows g box. \<exists>j \<in> {col_lo g box ..< col_hi g box}. at g (row_lo g box + i) j)"
    by (auto simp: empty_indices_def row_sums_def filter_empty_conv)
  also have "\<dots> \<longleftrightarrow> (\<forall>i \<in> {row_lo g box ..< row_hi g box}. \<exists>j \<in> {col_lo g box ..< col_hi g box}. at g i j)"
  proof (intro iffI ballI allI impI)
    fix i assume h: "\<forall>i < subgrid_rows g box. \<exists>j \<in> {col_lo g box ..< col_hi g box}. at g (row_lo g box + i) j"
      and i: "i \<in> {row_lo g box ..< row_hi g box}"
    then have "i - row_lo g box < subgrid_rows g box"
      by (auto simp: subgrid_rows_def)
    with h have "\<exists>j \<in> {col_lo g box ..< col_hi g box}. at g (row_lo g box + (i - row_lo g box)) j"
      by blast
    with i show "\<exists>j \<in> {col_lo g box ..< col_hi g box}. at g i j" by simp
  next
    fix i assume h: "\<forall>i \<in> {row_lo g box ..< row_hi g box}. \<exists>j \<in> {col_lo g box ..< col_hi g box}. at g i j"
      and i: "i < subgrid_rows g box"
    then have "row_lo g box + i \<in> {row_lo g box ..< row_hi g box}"
      by (auto simp: subgrid_rows_def)
    with h show "\<exists>j \<in> {col_lo g box ..< col_hi g box}. at g (row_lo g box + i) j" by blast
  qed
  also have "\<dots> \<longleftrightarrow> no_empty_row g box"
    by (auto simp: no_empty_row_def list_all_iff list_ex_iff)
  finally show ?thesis .
qed

lemma empty_cols_iff: "empty_indices (col_sums g box) = [] \<longleftrightarrow> no_empty_col g box"
proof -
  have "empty_indices (col_sums g box) = []
        \<longleftrightarrow> (\<forall>j < subgrid_cols g box. \<exists>i \<in> {row_lo g box ..< row_hi g box}. at g i (col_lo g box + j))"
    by (auto simp: empty_indices_def col_sums_def filter_empty_conv)
  also have "\<dots> \<longleftrightarrow> (\<forall>j \<in> {col_lo g box ..< col_hi g box}. \<exists>i \<in> {row_lo g box ..< row_hi g box}. at g i j)"
  proof (intro iffI ballI allI impI)
    fix j assume h: "\<forall>j < subgrid_cols g box. \<exists>i \<in> {row_lo g box ..< row_hi g box}. at g i (col_lo g box + j)"
      and j: "j \<in> {col_lo g box ..< col_hi g box}"
    then have "j - col_lo g box < subgrid_cols g box"
      by (auto simp: subgrid_cols_def)
    with h have "\<exists>i \<in> {row_lo g box ..< row_hi g box}. at g i (col_lo g box + (j - col_lo g box))"
      by blast
    with j show "\<exists>i \<in> {row_lo g box ..< row_hi g box}. at g i j" by simp
  next
    fix j assume h: "\<forall>j \<in> {col_lo g box ..< col_hi g box}. \<exists>i \<in> {row_lo g box ..< row_hi g box}. at g i j"
      and j: "j < subgrid_cols g box"
    then have "col_lo g box + j \<in> {col_lo g box ..< col_hi g box}"
      by (auto simp: subgrid_cols_def)
    with h show "\<exists>i \<in> {row_lo g box ..< row_hi g box}. at g i (col_lo g box + j)" by blast
  qed
  also have "\<dots> \<longleftrightarrow> no_empty_col g box"
    by (auto simp: no_empty_col_def list_all_iff list_ex_iff)
  finally show ?thesis .
qed

subsection \<open>Order of the runs and the boxes made from them\<close>

lemma runs_loop_sorted:
  assumes "\<And>s. start = Some s \<Longrightarrow> s < j"
  shows "sorted_wrt (\<lambda>a b. snd a < fst b) (runs_loop sums j start)"
  using assms
proof (induction sums j start rule: runs_loop.induct)
  case (1 j start)
  then show ?case by (simp split: option.splits)
next
  case (2 x sums j start)
  show ?case
  proof (cases "x > 0")
    case True
    have "\<And>s. (if start = None then Some j else start) = Some s \<Longrightarrow> s < j + 1"
      using "2.prems" by (auto split: if_splits)
    from "2.IH"(1) [OF True this] True show ?thesis by simp
  next
    case False
    show ?thesis
    proof (cases start)
      case None
      from "2.IH"(2) [OF False None] False None show ?thesis by simp
    next
      case (Some s)
      have later: "\<forall>b \<in> set (runs_loop sums (j + 1) None). j - 1 < fst b"
      proof
        fix b assume b: "b \<in> set (runs_loop sums (j + 1) None)"
        obtain cs ce where [simp]: "b = (cs, ce)" by (cases b)
        from runs_loop_props [of cs ce sums "j + 1" None] b
        have "\<not> cs < j + 1" by auto
        then show "j - 1 < fst b" by simp
      qed
      from "2.IH"(3) [OF False Some] have "sorted_wrt (\<lambda>a b. snd a < fst b) (runs_loop sums (j + 1) None)"
        by simp
      with later False Some show ?thesis by simp
    qed
  qed
qed

lemma non_empty_runs_sorted: "sorted_wrt (\<lambda>a b. snd a < fst b) (non_empty_runs sums)"
  unfolding non_empty_runs_def by (rule runs_loop_sorted) simp

lemma sorted_wrt_concat_map:
  assumes "sorted_wrt Q xs"
    and "\<And>x. x \<in> set xs \<Longrightarrow> sorted_wrt P (f x)"
    and "\<And>x y a b. Q x y \<Longrightarrow> x \<in> set xs \<Longrightarrow> y \<in> set xs \<Longrightarrow> a \<in> set (f x) \<Longrightarrow> b \<in> set (f y) \<Longrightarrow> P a b"
  shows "sorted_wrt P (concat (map f xs))"
  using assms
proof (induction xs)
  case Nil
  show ?case by simp
next
  case (Cons x xs)
  have "sorted_wrt P (concat (map f xs))"
    using Cons.prems by (intro Cons.IH) auto
  moreover have "sorted_wrt P (f x)"
    using Cons.prems(2) by simp
  moreover have "\<forall>a \<in> set (f x). \<forall>b \<in> set (concat (map f xs)). P a b"
    using Cons.prems(1,3) by fastforce
  ultimately show ?case
    by (simp add: sorted_wrt_append)
qed

lemma subgrid_cols_le:
  assumes "box_ok (r1, r2, c1, c2)"
  shows "int (subgrid_cols g (r1, r2, c1, c2)) \<le> c2 - c1 + 1"
  using assms by (auto simp: box_ok_def subgrid_cols_def col_hi_def col_lo_def slice_bound_def)

lemma subgrid_rows_le:
  assumes "box_ok (r1, r2, c1, c2)"
  shows "int (subgrid_rows g (r1, r2, c1, c2)) \<le> r2 - r1 + 1"
  using assms by (auto simp: box_ok_def subgrid_rows_def row_hi_def row_lo_def slice_bound_def)

lemma col_run_box_within:
  assumes "box_ok box" and "run \<in> set (non_empty_runs (col_sums g box))"
  shows "box_within (col_run_box box run) box \<and> box_ok (col_run_box box run)"
proof -
  obtain r1 r2 c1 c2 where box: "box = (r1, r2, c1, c2)" by (cases box) auto
  obtain cs ce where run: "run = (cs, ce)" by (cases run) auto
  have "cs \<le> ce" "ce < subgrid_cols g box"
    using non_empty_runs_props(1,2) [of cs ce "col_sums g box"] assms(2) run by simp_all
  moreover have "int (subgrid_cols g box) \<le> c2 - c1 + 1"
    using subgrid_cols_le assms(1) box by blast
  ultimately show ?thesis
    using assms(1) by (simp add: box run box_within_def box_ok_def col_run_box_def)
qed

lemma row_run_box_within:
  assumes "box_ok box" and "run \<in> set (non_empty_runs (row_sums g box))"
  shows "box_within (row_run_box box run) box \<and> box_ok (row_run_box box run)"
proof -
  obtain r1 r2 c1 c2 where box: "box = (r1, r2, c1, c2)" by (cases box) auto
  obtain rs re where run: "run = (rs, re)" by (cases run) auto
  have "rs \<le> re" "re < subgrid_rows g box"
    using non_empty_runs_props(1,2) [of rs re "row_sums g box"] assms(2) run by simp_all
  moreover have "int (subgrid_rows g box) \<le> r2 - r1 + 1"
    using subgrid_rows_le assms(1) box by blast
  ultimately show ?thesis
    using assms(1) by (simp add: box run box_within_def box_ok_def row_run_box_def)
qed

lemma box_within_trans: "box_within a b \<Longrightarrow> box_within b c \<Longrightarrow> box_within a c"
  by (auto simp: box_within_def split: prod.splits)

lemma box_within_refl: "box_within a a"
  by (auto simp: box_within_def split: prod.splits)

lemma col_run_boxes_apart:
  assumes "snd p < fst q" "box_within a (col_run_box box p)" "box_within b (col_run_box box q)"
    "box_ok a" "box_ok b"
  shows "\<not> boxes_overlap a b"
  using assms
  by (auto simp: boxes_overlap_def box_within_def col_run_box_def box_ok_def split: prod.splits)

lemma row_run_boxes_apart:
  assumes "snd p < fst q" "box_within a (row_run_box box p)" "box_within b (row_run_box box q)"
    "box_ok a" "box_ok b"
  shows "\<not> boxes_overlap a b"
  using assms
  by (auto simp: boxes_overlap_def box_within_def row_run_box_def box_ok_def split: prod.splits)

subsection \<open>The outputs lie in the box and are pairwise apart\<close>

text \<open>
  \<open>split_ok box out\<close>: every box of \<open>out\<close> is a well-formed box within \<open>box\<close>, and no
  box of \<open>out\<close> overlaps a later one.
\<close>

definition split_ok :: "bbox \<Rightarrow> bbox list \<Rightarrow> bool" where
  "split_ok box out =
     ((\<forall>b \<in> set out. box_within b box \<and> box_ok b)
      \<and> sorted_wrt (\<lambda>a b. \<not> boxes_overlap a b) out)"

lemma split_ok_single: "box_ok box \<Longrightarrow> split_ok box [box]"
  by (simp add: split_ok_def box_within_refl)

lemma split_ok_map_col:
  assumes "box_ok box"
  shows "split_ok box (map (col_run_box box) (non_empty_runs (col_sums g box)))"
proof -
  let ?runs = "non_empty_runs (col_sums g box)"
  have w: "\<And>run. run \<in> set ?runs \<Longrightarrow> box_within (col_run_box box run) box \<and> box_ok (col_run_box box run)"
    using col_run_box_within [OF assms] by blast
  have "sorted_wrt (\<lambda>p q. \<not> boxes_overlap (col_run_box box p) (col_run_box box q)) ?runs"
  proof (rule sorted_wrt_mono_rel [OF _ non_empty_runs_sorted])
    fix p q assume "p \<in> set ?runs" "q \<in> set ?runs" "snd p < fst q"
    then show "\<not> boxes_overlap (col_run_box box p) (col_run_box box q)"
      using col_run_boxes_apart [of p q _ box] w box_within_refl by blast
  qed
  then show ?thesis
    using w by (auto simp: split_ok_def sorted_wrt_map)
qed

lemma split_ok_map_row:
  assumes "box_ok box"
  shows "split_ok box (map (row_run_box box) (non_empty_runs (row_sums g box)))"
proof -
  let ?runs = "non_empty_runs (row_sums g box)"
  have w: "\<And>run. run \<in> set ?runs \<Longrightarrow> box_within (row_run_box box run) box \<and> box_ok (row_run_box box run)"
    using row_run_box_within [OF assms] by blast
  have "sorted_wrt (\<lambda>p q. \<not> boxes_overlap (row_run_box box p) (row_run_box box q)) ?runs"
  proof (rule sorted_wrt_mono_rel [OF _ non_empty_runs_sorted])
    fix p q assume "p \<in> set ?runs" "q \<in> set ?runs" "snd p < fst q"
    then show "\<not> boxes_overlap (row_run_box box p) (row_run_box box q)"
      using row_run_boxes_apart [of p q _ box] w box_within_refl by blast
  qed
  then show ?thesis
    using w by (auto simp: split_ok_def sorted_wrt_map)
qed

lemma split_ok_concat_col:
  assumes "box_ok box"
    and ih: "\<And>run. run \<in> set (non_empty_runs (col_sums g box)) \<Longrightarrow> split_ok (col_run_box box run) (f run)"
  shows "split_ok box (concat (map f (non_empty_runs (col_sums g box))))"
proof -
  let ?runs = "non_empty_runs (col_sums g box)"
  have w: "\<And>run. run \<in> set ?runs \<Longrightarrow> box_within (col_run_box box run) box"
    using col_run_box_within [OF assms(1)] by blast
  have "sorted_wrt (\<lambda>a b. \<not> boxes_overlap a b) (concat (map f ?runs))"
  proof (rule sorted_wrt_concat_map [OF non_empty_runs_sorted])
    fix x assume "x \<in> set ?runs"
    then show "sorted_wrt (\<lambda>a b. \<not> boxes_overlap a b) (f x)"
      using ih by (simp add: split_ok_def)
  next
    fix x y a b assume "snd x < fst y" "x \<in> set ?runs" "y \<in> set ?runs" "a \<in> set (f x)" "b \<in> set (f y)"
    then show "\<not> boxes_overlap a b"
      using ih [of x] ih [of y] col_run_boxes_apart [of x y a box b]
      by (auto simp: split_ok_def)
  qed
  moreover have "\<forall>b \<in> set (concat (map f ?runs)). box_within b box \<and> box_ok b"
  proof
    fix b assume "b \<in> set (concat (map f ?runs))"
    then obtain run where run: "run \<in> set ?runs" "b \<in> set (f run)" by auto
    from ih [OF run(1)] run(2) have "box_within b (col_run_box box run)" "box_ok b"
      by (simp_all add: split_ok_def)
    with w [OF run(1)] show "box_within b box \<and> box_ok b"
      using box_within_trans by blast
  qed
  ultimately show ?thesis by (simp add: split_ok_def)
qed

lemma split_ok_concat_row:
  assumes "box_ok box"
    and ih: "\<And>run. run \<in> set (non_empty_runs (row_sums g box)) \<Longrightarrow> split_ok (row_run_box box run) (f run)"
  shows "split_ok box (concat (map f (non_empty_runs (row_sums g box))))"
proof -
  let ?runs = "non_empty_runs (row_sums g box)"
  have w: "\<And>run. run \<in> set ?runs \<Longrightarrow> box_within (row_run_box box run) box"
    using row_run_box_within [OF assms(1)] by blast
  have "sorted_wrt (\<lambda>a b. \<not> boxes_overlap a b) (concat (map f ?runs))"
  proof (rule sorted_wrt_concat_map [OF non_empty_runs_sorted])
    fix x assume "x \<in> set ?runs"
    then show "sorted_wrt (\<lambda>a b. \<not> boxes_overlap a b) (f x)"
      using ih by (simp add: split_ok_def)
  next
    fix x y a b assume "snd x < fst y" "x \<in> set ?runs" "y \<in> set ?runs" "a \<in> set (f x)" "b \<in> set (f y)"
    then show "\<not> boxes_overlap a b"
      using ih [of x] ih [of y] row_run_boxes_apart [of x y a box b]
      by (auto simp: split_ok_def)
  qed
  moreover have "\<forall>b \<in> set (concat (map f ?runs)). box_within b box \<and> box_ok b"
  proof
    fix b assume "b \<in> set (concat (map f ?runs))"
    then obtain run where run: "run \<in> set ?runs" "b \<in> set (f run)" by auto
    from ih [OF run(1)] run(2) have "box_within b (row_run_box box run)" "box_ok b"
      by (simp_all add: split_ok_def)
    with w [OF run(1)] show "box_within b box \<and> box_ok b"
      using box_within_trans by blast
  qed
  ultimately show ?thesis by (simp add: split_ok_def)
qed

lemma split_ok_both:
  "(box_ok box \<longrightarrow> split_ok box (split_bbox_on_empty_lines g box))"
  "(box_ok box \<longrightarrow> split_ok box (split_bbox_on_empty_rows g box))"
proof (induction g box and g box rule: split_bbox_on_empty_lines_split_bbox_on_empty_rows.induct)
  case (1 g box)
  show ?case
  proof
    assume ok: "box_ok box"
    show "split_ok box (split_bbox_on_empty_lines g box)"
    proof (cases "empty_indices (col_sums g box) \<noteq> []")
      case True
      have "split_ok box (concat (map (\<lambda>run. split_bbox_on_empty_rows g (col_run_box box run))
                                      (non_empty_runs (col_sums g box))))"
      proof (rule split_ok_concat_col [OF ok])
        fix run assume r: "run \<in> set (non_empty_runs (col_sums g box))"
        with col_run_box_within [OF ok] have "box_ok (col_run_box box run)" by blast
        with "1.IH" [OF True r] show "split_ok (col_run_box box run) (split_bbox_on_empty_rows g (col_run_box box run))"
          by simp
      qed
      with True show ?thesis by (simp add: split_bbox_on_empty_lines.simps)
    next
      case False
      then show ?thesis
        using ok split_ok_map_row [OF ok, of g] split_ok_single [OF ok]
        by (simp add: split_bbox_on_empty_lines.simps)
    qed
  qed
next
  case (2 g box)
  show ?case
  proof
    assume ok: "box_ok box"
    show "split_ok box (split_bbox_on_empty_rows g box)"
    proof (cases "empty_indices (row_sums g box) \<noteq> []")
      case True
      have "split_ok box (concat (map (\<lambda>run. split_bbox_on_empty_lines g (row_run_box box run))
                                      (non_empty_runs (row_sums g box))))"
      proof (rule split_ok_concat_row [OF ok])
        fix run assume r: "run \<in> set (non_empty_runs (row_sums g box))"
        with row_run_box_within [OF ok] have "box_ok (row_run_box box run)" by blast
        with "2.IH" [OF True r] show "split_ok (row_run_box box run) (split_bbox_on_empty_lines g (row_run_box box run))"
          by simp
      qed
      with True show ?thesis by (simp add: split_bbox_on_empty_rows.simps)
    next
      case False
      then show ?thesis
        using ok split_ok_map_col [OF ok, of g] split_ok_single [OF ok]
        by (simp add: split_bbox_on_empty_rows.simps)
    qed
  qed
qed

lemma boxes_overlap_iff:
  "boxes_overlap (a1, a2, b1, b2) (r1, r2, c1, c2) \<longleftrightarrow>
     (\<exists>row col. a1 \<le> row \<and> row \<le> a2 \<and> b1 \<le> col \<and> col \<le> b2
                \<and> r1 \<le> row \<and> row \<le> r2 \<and> c1 \<le> col \<and> col \<le> c2)"
proof
  assume "boxes_overlap (a1, a2, b1, b2) (r1, r2, c1, c2)"
  then have "a1 \<le> max a1 r1 \<and> max a1 r1 \<le> a2 \<and> b1 \<le> max b1 c1 \<and> max b1 c1 \<le> b2
             \<and> r1 \<le> max a1 r1 \<and> max a1 r1 \<le> r2 \<and> c1 \<le> max b1 c1 \<and> max b1 c1 \<le> c2"
    by (auto simp: boxes_overlap_def)
  then show "\<exists>row col. a1 \<le> row \<and> row \<le> a2 \<and> b1 \<le> col \<and> col \<le> b2
                \<and> r1 \<le> row \<and> row \<le> r2 \<and> c1 \<le> col \<and> col \<le> c2"
    by blast
next
  assume "\<exists>row col. a1 \<le> row \<and> row \<le> a2 \<and> b1 \<le> col \<and> col \<le> b2
                \<and> r1 \<le> row \<and> row \<le> r2 \<and> c1 \<le> col \<and> col \<le> c2"
  then show "boxes_overlap (a1, a2, b1, b2) (r1, r2, c1, c2)"
    by (auto simp: boxes_overlap_def)
qed

subsection \<open>No true cell is dropped\<close>


















section \<open>What a flood fill marks\<close>




subsection \<open>The box of a flood fill is spanned by the cells it marks\<close>









subsection \<open>The boxes of the islands\<close>









section \<open>HeaderClassifier\<close>

text \<open>
  A loop whose body can raise stops at the first exception: \<open>sequence\<close> runs the results
  of the iterations in order and returns the first error, or all the values.
\<close>

fun sequence :: "(py_error + 'a) list \<Rightarrow> py_error + 'a list" where
  "sequence [] = Inr []"
| "sequence (x # xs) =
     (case x of
        Inl e \<Rightarrow> Inl e
      | Inr v \<Rightarrow> (case sequence xs of Inl e \<Rightarrow> Inl e | Inr vs \<Rightarrow> Inr (v # vs)))"

definition cell_text :: "cell_value option \<Rightarrow> string" where
  \<comment> \<open>\<^verbatim>\<open>"" if v is None else str(v).strip()\<close>\<close>
  "cell_text v = (case v of None \<Rightarrow> [] | Some x \<Rightarrow> strip (py_str x))"

text \<open>Lines 310-316: the matrix of the texts of the cells of the region.\<close>

definition region_row :: "worksheet \<Rightarrow> int \<Rightarrow> int \<Rightarrow> int \<Rightarrow> py_error + string list" where
  "region_row ws i c1 c2 =
     sequence (map (\<lambda>j. map_sum id cell_text (get_merged_cell_value ws i j)) [c1 .. c2])"

definition region_rows :: "worksheet \<Rightarrow> int \<Rightarrow> int \<Rightarrow> int \<Rightarrow> int \<Rightarrow> py_error + string list list" where
  "region_rows ws r1 r2 c1 c2 = sequence (map (\<lambda>i. region_row ws i c1 c2) [r1 .. r2])"

definition text_count :: "string list \<Rightarrow> nat" where
  \<comment> \<open>\<^verbatim>\<open>sum(1 for cell in row if cell and looks_text(cell))\<close>\<close>
  "text_count row = length (filter (\<lambda>cell. cell \<noteq> [] \<and> looks_text cell) row)"

definition numericish :: "string list \<Rightarrow> nat" where
  \<comment> \<open>\<^verbatim>\<open>sum(1 for cell in row if cell and not looks_text(cell))\<close>\<close>
  "numericish row = length (filter (\<lambda>cell. cell \<noteq> [] \<and> \<not> looks_text cell) row)"

text \<open>
  Line 325. The source compares the counts with the float quotients \<^verbatim>\<open>len(row) / 2\<close> and
  \<^verbatim>\<open>len(next_row) / 3\<close>; for the integers involved \<open>n \<ge> len / 2\<close> holds exactly when
  \<open>2 * n \<ge> len\<close>, and \<open>n \<ge> len / 3\<close> exactly when \<open>3 * n \<ge> len\<close> (a quotient that is not
  an integer is rounded to a float that lies between the same two integers).
\<close>

definition header_test :: "string list list \<Rightarrow> nat \<Rightarrow> bool" where
  "header_test rows idx =
     (2 * text_count (rows ! idx) \<ge> length (rows ! idx)
      \<and> 3 * numericish (rows ! (idx + 1)) \<ge> length (rows ! (idx + 1)))"

text \<open>Lines 321-326, over the indices that are left of \<^verbatim>\<open>range(len(rows) - 1)\<close>.\<close>

fun header_loop :: "string list list \<Rightarrow> nat list \<Rightarrow> (string list \<times> string list list) option" where
  "header_loop rows [] = None"
| "header_loop rows (idx # rest) =
     (if header_test rows idx then Some (rows ! idx, drop (idx + 1) rows)
      else header_loop rows rest)"

text \<open>Lines 321-327; \<^verbatim>\<open>rows[0]\<close> raises \<^verbatim>\<open>IndexError\<close> when there is no row.\<close>

definition classify_header :: "string list list \<Rightarrow> py_error + (string list \<times> string list list)" where
  "classify_header rows =
     (case header_loop rows [0 ..< length rows - 1] of
        Some found \<Rightarrow> Inr found
      | None \<Rightarrow> (case rows of [] \<Rightarrow> Inl IndexError | first # body \<Rightarrow> Inr (first, body)))"

definition detect_header_and_body ::
  "worksheet \<Rightarrow> int \<Rightarrow> int \<Rightarrow> int \<Rightarrow> int \<Rightarrow> py_error + (string list \<times> string list list)" where
  "detect_header_and_body ws r1 r2 c1 c2 =
     (case region_rows ws r1 r2 c1 c2 of Inl e \<Rightarrow> Inl e | Inr rows \<Rightarrow> classify_header rows)"

subsection \<open>Reading the matrix of a region\<close>

text \<open>
  The merged ranges of a sheet are 1-based; then reading a cell at a 1-based position does
  not raise, and a region with \<open>r1 \<le> r2\<close> has at least one row.
\<close>

definition merged_ok :: "worksheet \<Rightarrow> bool" where
  "merged_ok ws =
     list_all (\<lambda>rng. case rng of (min_col, min_row, max_col, max_row) \<Rightarrow> 1 \<le> min_row \<and> 1 \<le> min_col)
              (merged_cells ws)"

lemma sequence_map_Inr:
  assumes "\<And>x. x \<in> set xs \<Longrightarrow> f x = Inr (g x)"
  shows "sequence (map f xs) = Inr (map g xs)"
  using assms by (induction xs) simp_all

lemma ws_cell_value_Inr:
  "1 \<le> row \<Longrightarrow> 1 \<le> col \<Longrightarrow> \<exists>v. ws_cell_value ws row col = Inr v"
  by (simp add: ws_cell_value_def Let_def)

lemma merged_lookup_Inr:
  assumes "1 \<le> row" "1 \<le> col"
    and "list_all (\<lambda>rng. case rng of (min_col, min_row, max_col, max_row) \<Rightarrow> 1 \<le> min_row \<and> 1 \<le> min_col) ranges"
  shows "\<exists>v. merged_lookup ws ranges row col = Inr v"
  using assms
proof (induction ws ranges row col rule: merged_lookup.induct)
  case (1 ws row col)
  then show ?case by (simp add: ws_cell_value_Inr)
next
  case (2 ws min_col min_row max_col max_row ranges row col)
  then show ?case by (auto simp: ws_cell_value_Inr)
qed

lemma get_merged_cell_value_Inr:
  "merged_ok ws \<Longrightarrow> 1 \<le> row \<Longrightarrow> 1 \<le> col \<Longrightarrow> \<exists>v. get_merged_cell_value ws row col = Inr v"
  unfolding get_merged_cell_value_def merged_ok_def by (rule merged_lookup_Inr)

lemma region_row_Inr:
  assumes "merged_ok ws" "1 \<le> i" "1 \<le> c1"
  shows "\<exists>row. region_row ws i c1 c2 = Inr row"
proof -
  have "\<And>j. j \<in> set [c1 .. c2] \<Longrightarrow>
          map_sum id cell_text (get_merged_cell_value ws i j)
          = Inr (cell_text (projr (get_merged_cell_value ws i j)))"
  proof -
    fix j assume "j \<in> set [c1 .. c2]"
    then have "1 \<le> j" using assms(3) by simp
    from get_merged_cell_value_Inr [OF assms(1,2) this]
    show "map_sum id cell_text (get_merged_cell_value ws i j)
          = Inr (cell_text (projr (get_merged_cell_value ws i j)))"
      by auto
  qed
  from sequence_map_Inr [of "[c1 .. c2]", OF this] show ?thesis
    by (auto simp: region_row_def)
qed

lemma region_rows_Inr:
  assumes "merged_ok ws" "1 \<le> r1" "1 \<le> c1"
  shows "\<exists>rows. region_rows ws r1 r2 c1 c2 = Inr rows \<and> length rows = nat (r2 - r1 + 1)"
proof -
  have "\<And>i. i \<in> set [r1 .. r2] \<Longrightarrow> region_row ws i c1 c2 = Inr (projr (region_row ws i c1 c2))"
  proof -
    fix i assume "i \<in> set [r1 .. r2]"
    then have "1 \<le> i" using assms(2) by simp
    from region_row_Inr [OF assms(1) this assms(3), of c2]
    obtain row where "region_row ws i c1 c2 = Inr row" by blast
    then show "region_row ws i c1 c2 = Inr (projr (region_row ws i c1 c2))" by simp
  qed
  from sequence_map_Inr [of "[r1 .. r2]", OF this]
  have "region_rows ws r1 r2 c1 c2 = Inr (map (\<lambda>i. projr (region_row ws i c1 c2)) [r1 .. r2])"
    by (simp add: region_rows_def)
  then show ?thesis by simp
qed

lemma header_loop_None:
  "header_loop rows idxs = None \<longleftrightarrow> (\<forall>idx \<in> set idxs. \<not> header_test rows idx)"
  by (induction idxs) simp_all

lemma header_loop_upt_Some:
  assumes "k < n" and "header_test rows k" and "\<forall>idx < k. \<not> header_test rows idx"
  shows "header_loop rows [0 ..< n] = Some (rows ! k, drop (k + 1) rows)"
proof -
  have split: "[0 ..< n] = [0 ..< k] @ k # [Suc k ..< n]"
    using assms(1) by (metis upt_conv_Cons upt_add_eq_append le0 add.left_neutral le_add_diff_inverse less_imp_le_nat)
  have skip: "\<And>pre post. (\<forall>idx \<in> set pre. \<not> header_test rows idx) \<Longrightarrow>
                header_loop rows (pre @ post) = header_loop rows post"
  proof -
    fix pre post show "(\<forall>idx \<in> set pre. \<not> header_test rows idx) \<Longrightarrow>
                header_loop rows (pre @ post) = header_loop rows post"
      by (induction pre) simp_all
  qed
  have "header_loop rows [0 ..< n] = header_loop rows (k # [Suc k ..< n])"
    unfolding split using assms(3) by (intro skip) simp
  then show ?thesis using assms(2) by simp
qed

subsection \<open>The header test in the words of the specification\<close>

text \<open>
  A cell is text-like when it is not blank and holds an alphabetic character, and
  numeric-like when it is not blank and holds none. A row index passes when the text-like
  cells of its row are at least half of the cells of the row and the numeric-like cells
  of the next row at least one third of the cells of that row: twice the first number,
  and three times the second, is at least the number of cells.
\<close>

definition text_like :: "string \<Rightarrow> bool" where
  "text_like cell = (cell \<noteq> [] \<and> (\<exists>ch \<in> set cell. isalpha ch))"

definition numeric_like :: "string \<Rightarrow> bool" where
  "numeric_like cell = (cell \<noteq> [] \<and> (\<forall>ch \<in> set cell. \<not> isalpha ch))"

definition header_passes :: "string list list \<Rightarrow> nat \<Rightarrow> bool" where
  "header_passes rows idx =
     (length (rows ! idx)
        \<le> 2 * card {i. i < length (rows ! idx) \<and> text_like (rows ! idx ! i)}
      \<and> length (rows ! (idx + 1))
        \<le> 3 * card {i. i < length (rows ! (idx + 1)) \<and> numeric_like (rows ! (idx + 1) ! i)})"

lemma text_count_card: "text_count row = card {i. i < length row \<and> text_like (row ! i)}"
proof -
  have "(\<lambda>cell. cell \<noteq> [] \<and> looks_text cell) = text_like"
    by (auto simp: text_like_def looks_text_def list_ex_iff fun_eq_iff)
  then show ?thesis
    by (simp add: text_count_def length_filter_conv_card)
qed

lemma numericish_card: "numericish row = card {i. i < length row \<and> numeric_like (row ! i)}"
proof -
  have "(\<lambda>cell. cell \<noteq> [] \<and> \<not> looks_text cell) = numeric_like"
    by (auto simp: numeric_like_def looks_text_def list_ex_iff fun_eq_iff)
  then show ?thesis
    by (simp add: numericish_def length_filter_conv_card)
qed

lemma header_test_iff: "header_test rows idx = header_passes rows idx"
  unfolding header_test_def header_passes_def
  by (simp only: text_count_card [symmetric] numericish_card [symmetric])

section \<open>The table report of a sheet\<close>

text \<open>
  \<^verbatim>\<open>get_column_letter\<close>: the bijective base-26 name of a column, for the indices
  1 to 18278 the library accepts.
\<close>

fun get_column_letter :: "nat \<Rightarrow> string" where
  "get_column_letter n =
     (if n = 0 then []
      else get_column_letter ((n - 1) div 26) @ [''ABCDEFGHIJKLMNOPQRSTUVWXYZ'' ! ((n - 1) mod 26)])"

declare get_column_letter.simps [simp del]

definition bbox_to_range_str :: "int \<Rightarrow> int \<Rightarrow> int \<Rightarrow> int \<Rightarrow> string" where
  "bbox_to_range_str r1 r2 c1 c2 =
     get_column_letter (nat c1) @ str_int r1 @ '':'' @ get_column_letter (nat c2) @ str_int r2"

text \<open>
  The header filter of lines 364 and 380: a text is dropped when it is empty, starts with
  a bracket or has no alphabetic character.
\<close>

definition header_dropped :: "string \<Rightarrow> bool" where
  "header_dropped s = (s = [] \<or> startswith s ''['' \<or> \<not> looks_text s)"

text \<open>
  Lines 343-383. The declared column names come first; the first row of the range is read
  only when they leave no header. \<^verbatim>\<open>get_column_letter(j)\<close> and \<^verbatim>\<open>ws.cell\<close> both raise
  \<^verbatim>\<open>ValueError\<close> for a column below 1.
\<close>

definition declared_headers :: "table_obj \<Rightarrow> string list" where
  "declared_headers table_obj =
     filter (\<lambda>s. \<not> header_dropped s)
       (map strip (filter (\<lambda>name. name \<noteq> []) (tableColumns table_obj)))"

definition first_row_cell :: "worksheet \<Rightarrow> int \<Rightarrow> int \<Rightarrow> py_error + string list" where
  \<comment> \<open>one iteration of the loop of lines 373-382: the headers it appends\<close>
  "first_row_cell ws r1 j =
     (if j < 1 then Inl ValueError
      else if column_hidden ws (nat (j - 1)) then Inr []
      else (case get_merged_cell_value ws r1 j of
              Inl e \<Rightarrow> Inl e
            | Inr v \<Rightarrow> Inr (if header_dropped (cell_text v) then [] else [cell_text v])))"

definition sanitize_table_headers_from_tableobj ::
  "worksheet \<Rightarrow> table_obj \<Rightarrow> int \<Rightarrow> int \<Rightarrow> int \<Rightarrow> int \<Rightarrow> py_error + string list" where
  "sanitize_table_headers_from_tableobj ws table_obj r1 c1 r2 c2 =
     (if declared_headers table_obj \<noteq> [] then Inr (declared_headers table_obj)
      else map_sum id concat (sequence (map (first_row_cell ws r1) [c1 .. c2])))"

text \<open>
  An entry of the report. Explicit entries carry \<^verbatim>\<open>name\<close> and keep their headers under
  \<^verbatim>\<open>headers\<close>; implicit entries have no \<^verbatim>\<open>name\<close> and keep them under \<^verbatim>\<open>header\<close>; the
  field \<open>te_headers\<close> stands for both keys.
\<close>

record table_entry =
  te_name :: "string option"
  te_table_name :: string
  te_range :: string
  te_headers :: "string list"
  te_r1 :: int
  te_c1 :: int
  te_r2 :: int
  te_c2 :: int

record sheet_report =
  explicit_tables :: "table_entry list"
  implicit_tables :: "table_entry list"

definition explicit_entry :: "worksheet \<Rightarrow> int \<Rightarrow> region \<Rightarrow> py_error + table_entry" where
  \<comment> \<open>lines 405-414, with the value of \<^verbatim>\<open>table_counter\<close>\<close>
  "explicit_entry ws table_counter reg =
     (case reg of (r1, c1, r2, c2, name, table_obj) \<Rightarrow>
        (case sanitize_table_headers_from_tableobj ws table_obj r1 c1 r2 c2 of
           Inl e \<Rightarrow> Inl e
         | Inr headers \<Rightarrow>
             Inr \<lparr>te_name = Some name,
                  te_table_name = (if name \<noteq> [] then name else ''Table '' @ str_int table_counter),
                  te_range = bbox_to_range_str r1 r2 c1 c2,
                  te_headers = headers,
                  te_r1 = r1, te_c1 = c1, te_r2 = r2, te_c2 = c2\<rparr>))"

definition implicit_entry :: "worksheet \<Rightarrow> int \<Rightarrow> bbox \<Rightarrow> py_error + table_entry" where
  \<comment> \<open>lines 426-434, with the value of \<^verbatim>\<open>table_counter\<close>\<close>
  "implicit_entry ws table_counter box =
     (case box of (r1, r2, c1, c2) \<Rightarrow>
        (case detect_header_and_body ws r1 r2 c1 c2 of
           Inl e \<Rightarrow> Inl e
         | Inr (header, body) \<Rightarrow>
             Inr \<lparr>te_name = None,
                  te_table_name = ''Table '' @ str_int table_counter,
                  te_range = bbox_to_range_str r1 r2 c1 c2,
                  te_headers = filter (\<lambda>h. h \<noteq> [] \<and> \<not> startswith h ''['') header,
                  te_r1 = r1, te_c1 = c1, te_r2 = r2, te_c2 = c2\<rparr>))"

text \<open>
  Lines 401-437 for one worksheet. The counter starts at 1 and goes up by one with every
  entry, explicit entries first.
\<close>

definition implicit_boxes :: "worksheet \<Rightarrow> bbox list" where
  "implicit_boxes ws =
     (let explicit = get_explicit_table_regions ws;
          grid = build_grid_excluding_explicit ws explicit;
          islands = flood_fill_islands grid 2 2
      in concat (map (split_bbox_on_empty_lines grid) islands))"

definition sheet_table_report :: "worksheet \<Rightarrow> py_error + sheet_report" where
  "sheet_table_report ws =
     (let explicit = get_explicit_table_regions ws
      in case sequence (map (\<lambda>(k, reg). explicit_entry ws (1 + int k) reg)
                            (enumerate 0 explicit)) of
           Inl e \<Rightarrow> Inl e
         | Inr ex_entries \<Rightarrow>
             (case sequence (map (\<lambda>(k, box). implicit_entry ws (1 + int (length explicit) + int k) box)
                                 (enumerate 0 (implicit_boxes ws))) of
                Inl e \<Rightarrow> Inl e
              | Inr im_entries \<Rightarrow>
                  Inr \<lparr>explicit_tables = ex_entries, implicit_tables = im_entries\<rparr>))"



subsection \<open>Headers of explicit tables\<close>

text \<open>
  Both paths of \<^verbatim>\<open>sanitize_table_headers_from_tableobj\<close> drop the empty texts, the texts
  that start with a bracket and the texts without an alphabetic character.
\<close>

lemma sequence_Inr_set:
  "sequence xs = Inr vs \<Longrightarrow> v \<in> set vs \<Longrightarrow> Inr v \<in> set xs"
proof (induction xs arbitrary: vs)
  case Nil
  then show ?case by simp
next
  case (Cons x xs)
  then show ?case by (auto split: sum.splits)
qed

lemma first_row_cell_kept:
  "first_row_cell ws r1 j = Inr hs \<Longrightarrow> h \<in> set hs \<Longrightarrow> \<not> header_dropped h"
  by (auto simp: first_row_cell_def split: if_splits sum.splits)

lemma sanitize_headers_kept:
  assumes "sanitize_table_headers_from_tableobj ws table_obj r1 c1 r2 c2 = Inr hs" and "h \<in> set hs"
  shows "h \<noteq> [] \<and> \<not> startswith h ''['' \<and> looks_text h"
proof (cases "declared_headers table_obj \<noteq> []")
  case True
  with assms have "h \<in> set (declared_headers table_obj)"
    by (simp add: sanitize_table_headers_from_tableobj_def)
  then show ?thesis
    by (auto simp: declared_headers_def header_dropped_def)
next
  case False
  with assms(1) obtain parts where parts: "sequence (map (first_row_cell ws r1) [c1 .. c2]) = Inr parts"
    and hs: "hs = concat parts"
    by (cases "sequence (map (first_row_cell ws r1) [c1 .. c2])")
       (auto simp: sanitize_table_headers_from_tableobj_def)
  from assms(2) hs obtain part where part: "part \<in> set parts" "h \<in> set part" by auto
  from sequence_Inr_set [OF parts part(1)] obtain j where "first_row_cell ws r1 j = Inr part"
    by auto
  from first_row_cell_kept [OF this part(2)] show ?thesis
    by (simp add: header_dropped_def)
qed

subsection \<open>Implicit regions of the report\<close>









section \<open>ReferenceExtractor\<close>

text \<open>
  The regular expressions of the source are matched as the backtracking engine of
  \<^verbatim>\<open>re\<close> matches them. A matcher takes the rest of the pattern as a continuation and
  the input; it returns the number of characters the match consumes from here, trying
  the greedy alternative first and the shorter ones after it.
\<close>

type_synonym matcher = "string \<Rightarrow> nat option"

definition accept :: matcher where
  \<comment> \<open>the end of the pattern\<close>
  "accept s = Some 0"

definition lit_char :: "char \<Rightarrow> matcher \<Rightarrow> matcher" where
  \<comment> \<open>one literal character\<close>
  "lit_char c k s =
     (case s of [] \<Rightarrow> None | x # xs \<Rightarrow> if x = c then map_option Suc (k xs) else None)"

definition opt_char :: "char \<Rightarrow> matcher \<Rightarrow> matcher" where
  \<comment> \<open>\<^verbatim>\<open>c?\<close>: with the character first, without it after\<close>
  "opt_char c k s = (case lit_char c k s of Some n \<Rightarrow> Some n | None \<Rightarrow> k s)"

fun star_class :: "(char \<Rightarrow> bool) \<Rightarrow> matcher \<Rightarrow> matcher" where
  \<comment> \<open>\<^verbatim>\<open>[class]*\<close>\<close>
  "star_class P k [] = k []"
| "star_class P k (x # xs) =
     (case (if P x then map_option Suc (star_class P k xs) else None) of
        Some n \<Rightarrow> Some n
      | None \<Rightarrow> k (x # xs))"

definition plus_class :: "(char \<Rightarrow> bool) \<Rightarrow> matcher \<Rightarrow> matcher" where
  \<comment> \<open>\<^verbatim>\<open>[class]+\<close>\<close>
  "plus_class P k s =
     (case s of [] \<Rightarrow> None | x # xs \<Rightarrow> if P x then map_option Suc (star_class P k xs) else None)"

fun upto_class :: "(char \<Rightarrow> bool) \<Rightarrow> nat \<Rightarrow> matcher \<Rightarrow> matcher" where
  \<comment> \<open>\<^verbatim>\<open>[class]{0,n}\<close>\<close>
  "upto_class P 0 k s = k s"
| "upto_class P (Suc n) k s =
     (case (case s of [] \<Rightarrow> None
                    | x # xs \<Rightarrow> if P x then map_option Suc (upto_class P n k xs) else None) of
        Some m \<Rightarrow> Some m
      | None \<Rightarrow> k s)"

definition one_class :: "(char \<Rightarrow> bool) \<Rightarrow> matcher \<Rightarrow> matcher" where
  \<comment> \<open>one character of a class\<close>
  "one_class P k s =
     (case s of [] \<Rightarrow> None | x # xs \<Rightarrow> if P x then map_option Suc (k xs) else None)"

text \<open>
  Line 458: \<^verbatim>\<open>\$?[A-Za-z]{1,3}\$?\d+\<close>, and the cell-reference part
  \<^verbatim>\<open>[A-Za-z]{1,3}\$?\d+\<close> of line 607.
\<close>

definition cell_pattern :: "matcher \<Rightarrow> matcher" where
  "cell_pattern k =
     one_class is_letter (upto_class is_letter 2 (opt_char (CHR ''$'') (plus_class is_digit k)))"

definition reference_pattern :: matcher where
  "reference_pattern = opt_char (CHR ''$'') (cell_pattern accept)"

text \<open>Line 607: \<^verbatim>\<open>[A-Za-z]{1,3}\$?\d+:[A-Za-z]{1,3}\$?\d+\<close>.\<close>

definition range_pattern :: matcher where
  "range_pattern = cell_pattern (lit_char (CHR '':'') (cell_pattern accept))"

lemma cell_pattern_pos: "cell_pattern k s = Some n \<Longrightarrow> 0 < n"
  by (auto simp: cell_pattern_def one_class_def split: list.splits if_splits)

lemma reference_pattern_pos: "reference_pattern s = Some n \<Longrightarrow> 0 < n"
  by (auto simp: reference_pattern_def opt_char_def lit_char_def
           split: list.splits if_splits option.splits dest: cell_pattern_pos)

text \<open>
  \<^verbatim>\<open>re.findall\<close> with the reference pattern (lines 448-459): the matches from left to
  right, each search starting where the last match ended. A match takes at most the
  characters that are there.
\<close>

function extract_references :: "string \<Rightarrow> string list" where
  "extract_references s =
     (case s of
        [] \<Rightarrow> []
      | x # xs \<Rightarrow>
          (case reference_pattern s of
             Some n \<Rightarrow> take n s # extract_references (drop n s)
           | None \<Rightarrow> extract_references xs))"
  by pat_completeness auto
termination
  by (relation "measure length") (auto dest: reference_pattern_pos)

declare extract_references.simps [simp del]

text \<open>
  \<^verbatim>\<open>re.search\<close> with the range pattern, line 607: the leftmost match, or \<^verbatim>\<open>None\<close>.
\<close>

fun search_range :: "string \<Rightarrow> string option" where
  "search_range [] = None"
| "search_range (x # xs) =
     (case range_pattern (x # xs) of
        Some n \<Rightarrow> Some (take n (x # xs))
      | None \<Rightarrow> search_range xs)"

section \<open>TableRegistry\<close>







section \<open>FormulaAnnotator\<close>









subsection \<open>Substitution and word tokens\<close>





section \<open>DependencyResolver\<close>

subsection \<open>Insertion-ordered dictionaries: \<^verbatim>\<open>list(dict.fromkeys(xs))\<close>\<close>

text \<open>
  A Python \<^verbatim>\<open>dict\<close> keeps its keys in insertion order, and storing under a key that is
  already present leaves the key where it is. \<^verbatim>\<open>dict.fromkeys(xs)\<close> stores \<^verbatim>\<open>None\<close>
  under every element of \<^verbatim>\<open>xs\<close> in turn; the dictionary is the association list of
  its items.
\<close>

fun dict_setitem :: "('k \<times> 'v) list \<Rightarrow> 'k \<Rightarrow> 'v \<Rightarrow> ('k \<times> 'v) list" where
  "dict_setitem [] k v = [(k, v)]"
| "dict_setitem ((k', v') # d) k v =
     (if k' = k then (k', v) # d else (k', v') # dict_setitem d k v)"

fun dict_fromkeys_into :: "('k \<times> unit) list \<Rightarrow> 'k list \<Rightarrow> ('k \<times> unit) list" where
  "dict_fromkeys_into d [] = d"
| "dict_fromkeys_into d (k # ks) = dict_fromkeys_into (dict_setitem d k ()) ks"

definition dict_fromkeys :: "'k list \<Rightarrow> ('k \<times> unit) list" where
  "dict_fromkeys ks = dict_fromkeys_into [] ks"

definition dict_keys :: "('k \<times> 'v) list \<Rightarrow> 'k list" where
  "dict_keys d = map fst d"

text \<open>\<^verbatim>\<open>list(dict.fromkeys(xs))\<close>, the expression of lines 609, 611 and 613.\<close>

definition unique_in_order :: "'k list \<Rightarrow> 'k list" where
  "unique_in_order xs = dict_keys (dict_fromkeys xs)"

text \<open>
  The specification's wording: the entries of the input at the positions where they occur
  for the first time, in the order of these positions.
\<close>

definition first_occurrences :: "'k list \<Rightarrow> 'k list" where
  "first_occurrences xs =
     map (\<lambda>i. xs ! i) (filter (\<lambda>i. xs ! i \<notin> set (take i xs)) [0 ..< length xs])"

text \<open>
  Lines 599-613. \<open>inputs\<close> is the list of the keys of \<^verbatim>\<open>cell_obj.inputs\<close> when the
  evaluation model is there and knows the cell, and \<open>None\<close> otherwise; an empty list of
  keys is false in the test of line 603.
\<close>

definition simple_dep :: "string \<Rightarrow> string" where
  \<comment> \<open>lines 607-608\<close>
  "simple_dep d = (case search_range d of Some m \<Rightarrow> m | None \<Rightarrow> d)"

definition dependencies :: "string list option \<Rightarrow> string \<Rightarrow> string list" where
  "dependencies inputs formula =
     (case inputs of
        Some deps \<Rightarrow>
          if deps \<noteq> [] then unique_in_order (map simple_dep deps)
          else unique_in_order (extract_references formula)
      | None \<Rightarrow> unique_in_order (extract_references formula))"

subsection \<open>Keys of a dictionary built by \<open>dict_fromkeys\<close>\<close>

lemma dict_keys_setitem:
  "dict_keys (dict_setitem d k v) =
     (if k \<in> set (dict_keys d) then dict_keys d else dict_keys d @ [k])"
  by (induction d) (force simp: dict_keys_def)+

lemma first_occurrences_snoc:
  "first_occurrences (xs @ [x]) = first_occurrences xs @ (if x \<in> set xs then [] else [x])"
proof -
  have "filter (\<lambda>i. (xs @ [x]) ! i \<notin> set (take i (xs @ [x]))) [0 ..< length xs]
      = filter (\<lambda>i. xs ! i \<notin> set (take i xs)) [0 ..< length xs]"
    by (rule filter_cong) (auto simp: nth_append)
  moreover have "map (\<lambda>i. (xs @ [x]) ! i) (filter (\<lambda>i. xs ! i \<notin> set (take i xs)) [0 ..< length xs])
      = map (\<lambda>i. xs ! i) (filter (\<lambda>i. xs ! i \<notin> set (take i xs)) [0 ..< length xs])"
    by (rule map_cong) (auto simp: nth_append)
  ultimately show ?thesis
    by (simp add: first_occurrences_def)
qed

lemma set_first_occurrences: "set (first_occurrences xs) = set xs"
proof (induction xs rule: rev_induct)
  case Nil
  show ?case by (simp add: first_occurrences_def)
next
  case (snoc x xs)
  then show ?case by (auto simp: first_occurrences_snoc)
qed

lemma distinct_first_occurrences: "distinct (first_occurrences xs)"
proof (induction xs rule: rev_induct)
  case Nil
  show ?case by (simp add: first_occurrences_def)
next
  case (snoc x xs)
  then show ?case by (simp add: first_occurrences_snoc set_first_occurrences)
qed

lemma dict_keys_fromkeys_into:
  "dict_keys d = first_occurrences pre \<Longrightarrow>
   dict_keys (dict_fromkeys_into d ks) = first_occurrences (pre @ ks)"
proof (induction ks arbitrary: d pre)
  case Nil
  then show ?case by simp
next
  case (Cons k ks)
  have "dict_keys (dict_setitem d k ()) = first_occurrences (pre @ [k])"
    using Cons.prems by (simp add: dict_keys_setitem first_occurrences_snoc set_first_occurrences)
  from Cons.IH [OF this] show ?case by simp
qed

lemma unique_in_order_first_occurrences: "unique_in_order xs = first_occurrences xs"
  using dict_keys_fromkeys_into [of "[]" "[]" xs]
  by (simp add: unique_in_order_def dict_fromkeys_def dict_keys_def first_occurrences_def)

section \<open>Example worksheets\<close>

text \<open>A sheet whose only row is hidden and holds one number.\<close>

definition sheet_hidden_row :: worksheet where
  "sheet_hidden_row =
     \<lparr>title = ''Sheet1'', cell_rows = [[Some (Number 7)]], max_column = 1,
      column_dimensions = Map.empty, row_dimensions = [1 \<mapsto> \<lparr>hidden = True\<rparr>],
      merged_cells = [], tables = []\<rparr>"

text \<open>A sheet with the declared table \<^verbatim>\<open>Sales\<close> at \<^verbatim>\<open>A1:B2\<close> and one number beside it.\<close>

definition sales_table :: table_obj where
  "sales_table =
     \<lparr>ref_bounds = (1, 1, 2, 2), displayName = ''Sales'', tableColumns = [''Date'', ''Amount'']\<rparr>"

definition sheet_with_table :: worksheet where
  "sheet_with_table =
     \<lparr>title = ''Sheet1'',
      cell_rows = [[Some (Text ''Date''), Some (Text ''Amount''), Some (Number 5)],
                   [Some (Number 1), Some (Number 2), None]],
      max_column = 3,
      column_dimensions = Map.empty, row_dimensions = Map.empty,
      merged_cells = [], tables = [sales_table]\<rparr>"

text \<open>A grid of two rows and two columns with no empty row and no empty column.\<close>

definition full_grid :: grid where
  "full_grid = \<lparr>nrows = 2, ncols = 2, cells = [[True, True], [False, True]]\<rparr>"

text \<open>
  A grid of three rows and two columns: no column is empty, the middle row is, and each
  of the other two rows has an empty column.
\<close>

definition staggered_grid :: grid where
  "staggered_grid =
     \<lparr>nrows = 3, ncols = 2, cells = [[True, False], [False, False], [False, True]]\<rparr>"

text \<open>A sheet of three rows whose second row is the first that passes the header test.\<close>

definition late_header_sheet :: worksheet where
  "late_header_sheet =
     \<lparr>title = ''Sheet1'',
      cell_rows = [[Some (Number 1), Some (Number 2)],
                   [Some (Text ''Name''), Some (Text ''Qty'')],
                   [Some (Number 3), Some (Number 4)]],
      max_column = 2,
      column_dimensions = Map.empty, row_dimensions = Map.empty,
      merged_cells = [], tables = []\<rparr>"

text \<open>
  A block of two rows and two columns outside any declared table; its first row holds the
  texts \<^verbatim>\<open>Name\<close> and \<^verbatim>\<open>123\<close>.
\<close>

definition numeric_header_sheet :: worksheet where
  "numeric_header_sheet =
     \<lparr>title = ''Sheet1'',
      cell_rows = [[Some (Text ''Name''), Some (Text ''123'')],
                   [Some (Number 1), Some (Number 2)]],
      max_column = 2,
      column_dimensions = Map.empty, row_dimensions = Map.empty,
      merged_cells = [], tables = []\<rparr>"







section \<open>Claims\<close>

subsection \<open>C1: what the grid marks\<close>

text \<open>
  C1 as stated: a grid entry is true iff the value resolved through the merged ranges is
  not null, the row is not hidden, the column is not hidden and no explicit-table range
  holds the cell. The grid builder never reads the row dimensions: on a sheet whose
  hidden first row holds a number the entry is true, where the statement makes it false.
\<close>

theorem grid_entry_counterexample:
  "at (build_grid_excluding_explicit sheet_hidden_row []) 0 0
   \<and> \<not> grid_entry_spec sheet_hidden_row [] 1 1"
  by code_simp

text \<open>
  C1 as amended: for explicit-table ranges of the data model, the grid entry of a cell is
  true iff the cell's own stored value is not null, the cell's column is not hidden and
  no explicit-table range holds the cell.
\<close>

theorem grid_entry_amended:
  assumes "\<forall>reg \<in> set regions. region_ok reg"
    and "i < length (cell_rows ws)" and "j < max_column ws"
  shows "at (build_grid_excluding_explicit ws regions) i j
         \<longleftrightarrow> row_value (cell_rows ws ! i) j \<noteq> None
             \<and> \<not> column_hidden ws j
             \<and> \<not> list_ex (\<lambda>reg. in_region reg (int i + 1) (int j + 1)) regions"
proof -
  have "list_ex (\<lambda>reg. in_slice reg (length (cell_rows ws)) (max_column ws) i j) regions
        = list_ex (\<lambda>reg. in_region reg (int i + 1) (int j + 1)) regions"
    using assms by (auto simp: list_ex_iff in_slice_region)
  then show ?thesis
    using assms(2,3) by (auto simp: at_build_grid)
qed

theorem grid_entry_amended_witness:
  "at (build_grid_excluding_explicit sheet_with_table (get_explicit_table_regions sheet_with_table)) 0 2
   \<and> \<not> at (build_grid_excluding_explicit sheet_with_table (get_explicit_table_regions sheet_with_table)) 0 1"
proof -
  have ok: "\<forall>reg \<in> set (get_explicit_table_regions sheet_with_table). region_ok reg"
    by (simp add: get_explicit_table_regions_def sheet_with_table_def sales_table_def region_ok_def)
  have r: "(0::nat) < length (cell_rows sheet_with_table)"
    by (simp add: sheet_with_table_def)
  have c2: "(2::nat) < max_column sheet_with_table" and c1: "(1::nat) < max_column sheet_with_table"
    by (simp_all add: sheet_with_table_def)
  show ?thesis
    using grid_entry_amended [OF ok r c2] grid_entry_amended [OF ok r c1]
    by (simp add: get_explicit_table_regions_def sheet_with_table_def sales_table_def
                  row_value_def column_hidden_def in_region_def)
qed

subsection \<open>C2: grid exclusion\<close>

text \<open>
  C2: for a cell \<open>(row, col)\<close> of the grid that lies inside the range of a table declared
  on the sheet, the grid entry is false, whatever the cell holds. The range is 1-based,
  as every range the library reads from a sheet is.
\<close>

theorem grid_exclusion:
  assumes "t \<in> set (tables ws)"
    and "ref_bounds t = (min_col, min_row, max_col, max_row)"
    and "1 \<le> min_row" and "1 \<le> min_col"
    and "min_row \<le> row" and "row \<le> max_row" and "min_col \<le> col" and "col \<le> max_col"
    and "row \<le> int (length (cell_rows ws))" and "col \<le> int (max_column ws)"
  shows "\<not> at (build_grid_excluding_explicit ws (get_explicit_table_regions ws))
              (nat (row - 1)) (nat (col - 1))"
proof -
  let ?reg = "(min_row, min_col, max_row, max_col, displayName t, t)"
  let ?R = "length (cell_rows ws)" and ?C = "max_column ws"
  have mem: "?reg \<in> set (get_explicit_table_regions ws)"
    using assms(1,2) by (force simp: get_explicit_table_regions_def)
  have i: "nat (row - 1) < ?R" and j: "nat (col - 1) < ?C"
    using assms by auto
  have "in_slice ?reg ?R ?C (nat (row - 1)) (nat (col - 1))"
    using assms by (auto simp: in_slice_def slice_bound_def)
  with mem have "list_ex (\<lambda>reg. in_slice reg ?R ?C (nat (row - 1)) (nat (col - 1)))
                   (get_explicit_table_regions ws)"
    by (auto simp: list_ex_iff)
  then show ?thesis
    using i j by (simp add: at_build_grid)
qed

theorem grid_exclusion_witness:
  "cell_rows sheet_with_table ! 0 ! 1 = Some (Text ''Amount'')
   \<and> \<not> at (build_grid_excluding_explicit sheet_with_table (get_explicit_table_regions sheet_with_table)) 0 1"
proof -
  have t: "sales_table \<in> set (tables sheet_with_table)"
    by (simp add: sheet_with_table_def)
  have b: "ref_bounds sales_table = (1, 1, 2, 2)"
    by (simp add: sales_table_def)
  have "\<not> at (build_grid_excluding_explicit sheet_with_table (get_explicit_table_regions sheet_with_table))
              (nat (1 - 1)) (nat (2 - 1))"
    by (rule grid_exclusion [OF t b]) (simp_all add: sheet_with_table_def)
  then show ?thesis
    by (simp add: sheet_with_table_def)
qed

subsection \<open>C3: the header filter\<close>

text \<open>
  C3 asks that no stored header, of an explicit or of an implicit table, is empty, starts
  with a bracket or has no alphabetic character. Explicit tables keep to it (lemma
  \<open>sanitize_headers_kept\<close>). The filter of the implicit tables (line 428) drops the
  empty and the bracketed texts only: the report of the sheet below stores the header
  \<^verbatim>\<open>123\<close>, which has no alphabetic character.
\<close>

theorem implicit_header_keeps_numeric:
  "sheet_table_report numeric_header_sheet =
     Inr \<lparr>explicit_tables = [],
          implicit_tables =
            [\<lparr>te_name = None, te_table_name = ''Table 1'', te_range = ''A1:B2'',
              te_headers = [''Name'', ''123''],
              te_r1 = 1, te_c1 = 1, te_r2 = 2, te_c2 = 2\<rparr>]\<rparr>
   \<and> \<not> looks_text ''123''"
  by code_simp

subsection \<open>C4: annotation and reference boundaries\<close>




subsection \<open>C5: dependencies in first-seen order\<close>

text \<open>
  C5: on every list of raw references the dependency resolver, \<^verbatim>\<open>list(dict.fromkeys(...))\<close>,
  returns the entries of the list at their first occurrences, in the order of these
  occurrences: no entry twice, no entry lost, nothing sorted. So do the dependencies of a
  formula without an evaluation model, taken from the references of the formula, and the
  dependencies taken from the inputs of the model after the range token of each input is
  extracted. \<^verbatim>\<open>["B2", "A1", "B2"]\<close> gives \<^verbatim>\<open>["B2", "A1"]\<close>. The result is a function of
  the list alone, the same on every run.
\<close>

theorem dependencies_first_seen:
  "unique_in_order (refs :: string list) = first_occurrences refs
   \<and> distinct (unique_in_order refs)
   \<and> set (unique_in_order refs) = set refs
   \<and> dependencies None formula = first_occurrences (extract_references formula)
   \<and> dependencies (Some (d # deps)) formula = first_occurrences (map simple_dep (d # deps))
   \<and> unique_in_order [''B2'', ''A1'', ''B2''] = [''B2'', ''A1'']"
proof -
  have a: "unique_in_order refs = first_occurrences refs"
    by (rule unique_in_order_first_occurrences)
  have b: "distinct (unique_in_order refs)" "set (unique_in_order refs) = set refs"
    by (simp_all add: a distinct_first_occurrences set_first_occurrences)
  have c: "dependencies None formula = first_occurrences (extract_references formula)"
    by (simp add: dependencies_def unique_in_order_first_occurrences)
  have d: "dependencies (Some (d # deps)) formula = first_occurrences (map simple_dep (d # deps))"
    by (simp add: dependencies_def unique_in_order_first_occurrences)
  have e: "unique_in_order [''B2'', ''A1'', ''B2''] = [''B2'', ''A1'']"
    by (simp add: unique_in_order_def dict_fromkeys_def dict_keys_def)
  from a b c d e show ?thesis by blast
qed

subsection \<open>C6: what the splitter leaves in its outputs\<close>



subsection \<open>C7: splitting is idempotent\<close>

text \<open>
  C7: for every grid and every bounding box whose sub-grid has no fully-empty row and no
  fully-empty column, the region splitter returns the one-element list of that box.
\<close>

theorem split_unchanged:
  assumes "no_empty_row g box" and "no_empty_col g box"
  shows "split_bbox_on_empty_lines g box = [box]"
proof -
  have "empty_indices (col_sums g box) = []" "empty_indices (row_sums g box) = []"
    using assms by (simp_all add: empty_rows_iff empty_cols_iff)
  then show ?thesis
    by (simp add: split_bbox_on_empty_lines.simps)
qed

theorem split_unchanged_witness:
  "no_empty_row full_grid (1, 2, 1, 2) \<and> no_empty_col full_grid (1, 2, 1, 2)
   \<and> split_bbox_on_empty_lines full_grid (1, 2, 1, 2) = [(1, 2, 1, 2)]"
proof -
  have r: "no_empty_row full_grid (1, 2, 1, 2)" by code_simp
  have c: "no_empty_col full_grid (1, 2, 1, 2)" by code_simp
  from split_unchanged [OF r c] r c show ?thesis by simp
qed

subsection \<open>C8: regions of one report\<close>




subsection \<open>C9: the header row\<close>

text \<open>
  C9: for a region with 1-based bounds and at least one row, the header classifier does
  not raise. It returns the first row index \<open>k\<close> from the top, among the indices that
  have a next row, at which the text-like cells are at least half of the cells of the row
  and the numeric-like cells of the next row at least one third of the cells of that row
  (\<open>header_passes\<close>, the test in the words of the specification, which the test of the
  code is proved to equal), together with the rows below \<open>k\<close>; when no index passes the
  test it returns the first row of the region.
\<close>

theorem header_row_choice:
  assumes "1 \<le> r1" and "r1 \<le> r2" and "1 \<le> c1" and "merged_ok ws"
  shows "\<exists>rows k. region_rows ws r1 r2 c1 c2 = Inr rows \<and> k < length rows
           \<and> detect_header_and_body ws r1 r2 c1 c2 = Inr (rows ! k, drop (Suc k) rows)
           \<and> (if \<exists>idx. idx + 1 < length rows \<and> header_passes rows idx
              then k + 1 < length rows \<and> header_passes rows k
                   \<and> (\<forall>idx < k. \<not> header_passes rows idx)
              else k = 0)"
proof -
  from region_rows_Inr [OF assms(4,1,3), of r2 c2] obtain rows
    where rows: "region_rows ws r1 r2 c1 c2 = Inr rows" "length rows = nat (r2 - r1 + 1)"
    by blast
  have ne: "rows \<noteq> []" using rows(2) assms(2) by auto
  show ?thesis
  proof (cases "\<exists>idx. idx + 1 < length rows \<and> header_passes rows idx")
    case True
    then obtain m where m: "m + 1 < length rows" "header_passes rows m" by blast
    define k where "k = (LEAST idx. header_passes rows idx)"
    have k1: "header_passes rows k" unfolding k_def using m(2) by (rule LeastI)
    have k2: "k \<le> m" unfolding k_def using m(2) by (rule Least_le)
    have k3: "\<forall>idx < k. \<not> header_passes rows idx"
      unfolding k_def using not_less_Least by blast
    have kn: "k < length rows - 1" using k2 m(1) by linarith
    have t1: "header_test rows k" using k1 by (simp only: header_test_iff)
    have t3: "\<forall>idx < k. \<not> header_test rows idx" using k3 by (simp only: header_test_iff)
    have "header_loop rows [0 ..< length rows - 1] = Some (rows ! k, drop (k + 1) rows)"
      using kn t1 t3 by (rule header_loop_upt_Some)
    then have d: "detect_header_and_body ws r1 r2 c1 c2 = Inr (rows ! k, drop (Suc k) rows)"
      by (simp add: detect_header_and_body_def rows(1) classify_header_def)
    have kl: "k < length rows" "k + 1 < length rows" using kn by linarith+
    have "region_rows ws r1 r2 c1 c2 = Inr rows \<and> k < length rows
           \<and> detect_header_and_body ws r1 r2 c1 c2 = Inr (rows ! k, drop (Suc k) rows)
           \<and> (if \<exists>idx. idx + 1 < length rows \<and> header_passes rows idx
              then k + 1 < length rows \<and> header_passes rows k
                   \<and> (\<forall>idx < k. \<not> header_passes rows idx)
              else k = 0)"
      using rows(1) d kl k1 k3 True by (simp only: if_True simp_thms)
    then show ?thesis by (intro exI)
  next
    case False
    then have "\<forall>idx \<in> set [0 ..< length rows - 1]. \<not> header_passes rows idx"
      by auto
    then have "\<forall>idx \<in> set [0 ..< length rows - 1]. \<not> header_test rows idx"
      by (simp only: header_test_iff)
    then have none: "header_loop rows [0 ..< length rows - 1] = None"
      by (simp only: header_loop_None)
    obtain first body where fb: "rows = first # body"
      using ne by (cases rows) auto
    have d: "detect_header_and_body ws r1 r2 c1 c2 = Inr (rows ! 0, drop (Suc 0) rows)"
      using none by (simp add: detect_header_and_body_def rows(1) classify_header_def fb)
    have l0: "0 < length rows" using ne by simp
    have "region_rows ws r1 r2 c1 c2 = Inr rows \<and> 0 < length rows
           \<and> detect_header_and_body ws r1 r2 c1 c2 = Inr (rows ! 0, drop (Suc 0) rows)
           \<and> (if \<exists>idx. idx + 1 < length rows \<and> header_passes rows idx
              then 0 + 1 < length rows \<and> header_passes rows 0
                   \<and> (\<forall>idx < 0. \<not> header_passes rows idx)
              else (0::nat) = 0)"
      using rows(1) d l0 False by (simp only: if_False simp_thms)
    then show ?thesis by (intro exI)
  qed
qed

theorem header_row_choice_witness:
  "detect_header_and_body late_header_sheet 1 3 1 2 = Inr ([''Name'', ''Qty''], [[''3'', ''4'']])
   \<and> (\<exists>rows k. region_rows late_header_sheet 1 3 1 2 = Inr rows \<and> k < length rows
           \<and> detect_header_and_body late_header_sheet 1 3 1 2 = Inr (rows ! k, drop (Suc k) rows)
           \<and> (if \<exists>idx. idx + 1 < length rows \<and> header_passes rows idx
              then k + 1 < length rows \<and> header_passes rows k \<and> (\<forall>idx < k. \<not> header_passes rows idx)
              else k = 0))"
proof -
  have m: "merged_ok late_header_sheet"
    by (simp add: merged_ok_def late_header_sheet_def)
  have v: "detect_header_and_body late_header_sheet 1 3 1 2 = Inr ([''Name'', ''Qty''], [[''3'', ''4'']])"
    by code_simp
  from header_row_choice [of 1 3 1 late_header_sheet 2, OF _ _ _ m] v show ?thesis
    by simp
qed

subsection \<open>C10: the outputs stay in the box and do not overlap\<close>

text \<open>
  C10: for every grid and every bounding box of the data model, each box returned by
  either splitting function lies within the input box, and no two boxes at different
  positions of the output share a cell.
\<close>

theorem split_within_and_disjoint:
  assumes "box_ok box"
  shows "(\<forall>b \<in> set (split_bbox_on_empty_lines g box). box_within b box)
         \<and> (\<forall>i j. i < j \<and> j < length (split_bbox_on_empty_lines g box) \<longrightarrow>
                \<not> boxes_overlap (split_bbox_on_empty_lines g box ! i)
                                  (split_bbox_on_empty_lines g box ! j))
         \<and> (\<forall>b \<in> set (split_bbox_on_empty_rows g box). box_within b box)
         \<and> (\<forall>i j. i < j \<and> j < length (split_bbox_on_empty_rows g box) \<longrightarrow>
                \<not> boxes_overlap (split_bbox_on_empty_rows g box ! i)
                                  (split_bbox_on_empty_rows g box ! j))"
proof -
  have l: "split_ok box (split_bbox_on_empty_lines g box)"
    and r: "split_ok box (split_bbox_on_empty_rows g box)"
    using split_ok_both assms by blast+
  show ?thesis
    using l r by (auto simp: split_ok_def sorted_wrt_iff_nth_less)
qed

theorem split_within_and_disjoint_witness:
  "split_bbox_on_empty_lines staggered_grid (1, 3, 1, 2) = [(1, 1, 1, 2), (3, 3, 1, 2)]
   \<and> box_within (1, 1, 1, 2) (1, 3, 1, 2) \<and> box_within (3, 3, 1, 2) (1, 3, 1, 2)
   \<and> \<not> boxes_overlap (1, 1, 1, 2) (3, 3, 1, 2)"
proof -
  have ok: "box_ok (1, 3, 1, 2)"
    by (simp add: box_ok_def)
  have out: "split_bbox_on_empty_lines staggered_grid (1, 3, 1, 2) = [(1, 1, 1, 2), (3, 3, 1, 2)]"
    by code_simp
  from split_within_and_disjoint [OF ok, of staggered_grid]
  have "(\<forall>b \<in> set [(1, 1, 1, 2), (3, 3, 1, 2)]. box_within b (1, 3, 1, 2))
        \<and> (\<forall>i j. i < j \<and> j < length [(1::int, 1::int, 1::int, 2::int), (3, 3, 1, 2)] \<longrightarrow>
               \<not> boxes_overlap ([(1, 1, 1, 2), (3, 3, 1, 2)] ! i) ([(1, 1, 1, 2), (3, 3, 1, 2)] ! j))"
    unfolding out by blast
  then have "box_within (1, 1, 1, 2) (1, 3, 1, 2)" "box_within (3, 3, 1, 2) (1, 3, 1, 2)"
    and "\<not> boxes_overlap ([(1, 1, 1, 2), (3, 3, 1, 2)] ! 0) ([(1, 1, 1, 2), (3, 3, 1, 2)] ! 1)"
    by auto
  with out show ?thesis by simp
qed

end
